theory Spec2Isabelle
  imports Complex_Main "HOL-Library.Log_Nat"
begin

section \<open>Python numbers\<close>

text \<open>
  The three scripts compute the background gradient with Python floats and cut the result
  with \<open>int(...)\<close>. Truncation is not continuous, so the last bit matters: a float is
  modelled as the rational it denotes, and every arithmetic operation rounds the exact
  result to 53 significant bits, ties to even, as an IEEE 754 double does. The exponent
  range is not bounded; all values of the gradient lie between \<open>2 powr -1022\<close> and 255,
  where a double has no overflow and no subnormals.
\<close>

definition pow2 :: "int \<Rightarrow> rat" where
  "pow2 k = (if 0 \<le> k then 2 ^ nat k else 1 / 2 ^ nat (- k))"

definition ilog2 :: "rat \<Rightarrow> int" where
  "ilog2 x = (case quotient_of \<bar>x\<bar> of (p, q) \<Rightarrow>
     (let k = bitlen p - bitlen q in if pow2 k \<le> \<bar>x\<bar> then k else k - 1))"

definition round_half_even :: "rat \<Rightarrow> int" where
  "round_half_even x = (let f = \<lfloor>x\<rfloor>; d = x - of_int f in
     if d < 1 / 2 then f else if 1 / 2 < d then f + 1 else if even f then f else f + 1)"

definition fl :: "rat \<Rightarrow> rat" where
  "fl x = (if x = 0 then 0 else
     (let u = pow2 (ilog2 x - 52) in of_int (round_half_even (x / u)) * u))"

definition fadd :: "rat \<Rightarrow> rat \<Rightarrow> rat" where "fadd a b = fl (a + b)"
definition fsub :: "rat \<Rightarrow> rat \<Rightarrow> rat" where "fsub a b = fl (a - b)"
definition fmul :: "rat \<Rightarrow> rat \<Rightarrow> rat" where "fmul a b = fl (a * b)"
definition fdiv :: "rat \<Rightarrow> rat \<Rightarrow> rat" where "fdiv a b = fl (a / b)"

text \<open>\<open>int(x)\<close> on a float: truncation toward zero.\<close>

definition py_int :: "rat \<Rightarrow> int" where
  "py_int x = (if 0 \<le> x then \<lfloor>x\<rfloor> else \<lceil>x\<rceil>)"

text \<open>\<open>range(n)\<close> and \<open>range(start, stop, step)\<close> for a positive step.\<close>

definition range1 :: "int \<Rightarrow> int list" where
  "range1 n = [0 .. n - 1]"

definition range3 :: "int \<Rightarrow> int \<Rightarrow> int \<Rightarrow> int list" where
  "range3 start stop step =
     map (\<lambda>k. start + int k * step) [0 ..< nat ((stop - start + step - 1) div step)]"


section \<open>The imaging library\<close>

text \<open>
  The scripts draw through PIL (\<open>Image\<close>, \<open>ImageDraw\<close>), which is not part of the
  repository. An image is its mode, its size and its pixel store; the store has no cell
  outside the canvas. Every call that can raise returns a sum, \<open>Inl\<close> the exception.
\<close>

datatype error = ValueError | TypeError | IndexError | OverflowError

datatype mode = ModeRGB | ModeL

datatype pixel = Rgb int int int | Lum int

record image =
  mode :: mode
  width :: int
  height :: int
  px :: "int \<times> int \<Rightarrow> pixel option"

definition ebind :: "error + 'a \<Rightarrow> ('a \<Rightarrow> error + 'b) \<Rightarrow> error + 'b" where
  "ebind m f = (case m of Inl e \<Rightarrow> Inl e | Inr a \<Rightarrow> f a)"

fun efold :: "('b \<Rightarrow> 'a \<Rightarrow> error + 'a) \<Rightarrow> 'b list \<Rightarrow> 'a \<Rightarrow> error + 'a" where
  "efold f [] a = Inr a"
| "efold f (x # xs) a = ebind (f x a) (efold f xs)"

definition inside :: "int \<Rightarrow> int \<Rightarrow> int \<times> int \<Rightarrow> bool" where
  "inside w h p = (0 \<le> fst p \<and> fst p < w \<and> 0 \<le> snd p \<and> snd p < h)"

definition clip8 :: "int \<Rightarrow> int" where
  "clip8 v = max 0 (min 255 v)"

text \<open>
  A colour argument is the list of the numbers passed (\<open>[v]\<close> for a bare integer). For an
  RGB image a fourth component is accepted and not stored: the image has three bands.
  Only the shapes of colour the scripts pass are modelled; any other is rejected.
\<close>

fun getink :: "mode \<Rightarrow> int list \<Rightarrow> error + pixel" where
  "getink ModeRGB [r, g, b] = Inr (Rgb (clip8 r) (clip8 g) (clip8 b))"
| "getink ModeRGB [r, g, b, a] = Inr (Rgb (clip8 r) (clip8 g) (clip8 b))"
| "getink ModeL [v] = Inr (Lum (clip8 v))"
| "getink _ _ = Inl TypeError"

text \<open>
  \<open>Image.new(mode, (w, h), color)\<close>: a negative side is refused with \<open>ValueError\<close>, and a
  side that does not fit the library's machine integer (from \<open>2^31\<close>) with
  \<open>OverflowError\<close>. Memory is taken to suffice for every size below that.
\<close>

definition Image_new :: "mode \<Rightarrow> int \<times> int \<Rightarrow> int list \<Rightarrow> error + image" where
  "Image_new m sz color = (case sz of (w, h) \<Rightarrow>
     if w < 0 \<or> h < 0 then Inl ValueError
     else if 2 ^ 31 \<le> w \<or> 2 ^ 31 \<le> h then Inl OverflowError
     else ebind (getink m color) (\<lambda>ink.
       Inr \<lparr>mode = m, width = w, height = h,
            px = (\<lambda>p. if inside w h p then Some ink else None)\<rparr>))"

definition getpixel :: "image \<Rightarrow> int \<times> int \<Rightarrow> error + pixel" where
  "getpixel img p = (case px img p of None \<Rightarrow> Inl IndexError | Some c \<Rightarrow> Inr c)"

text \<open>Inking the covered cells of the canvas; cells outside the canvas do not exist.\<close>

definition paint :: "image \<Rightarrow> (int \<times> int \<Rightarrow> bool) \<Rightarrow> pixel \<Rightarrow> image" where
  "paint img cov ink =
     img\<lparr>px := (\<lambda>p. if inside (width img) (height img) p \<and> cov p then Some ink else px img p)\<rparr>"

text \<open>
  Which cells a shape covers is the library's rasterizer. A horizontal line and an
  axis-parallel rectangle are unambiguous (both ends inclusive). The coverage of
  ellipses, polygons and rounded rectangles, and whether a box with \<open>x1 < x0\<close> is
  rejected (recent releases raise \<open>ValueError\<close>, older ones do not), are parameters.
\<close>

record rasterizer =
  ellipse_cov :: "real \<times> real \<times> real \<times> real \<Rightarrow> int \<times> int \<Rightarrow> bool"
  polygon_cov :: "(real \<times> real) list \<Rightarrow> int \<times> int \<Rightarrow> bool"
  rounded_cov :: "int \<times> int \<times> int \<times> int \<Rightarrow> int \<Rightarrow> int \<times> int \<Rightarrow> bool"
  strict_boxes :: bool

definition hline_cov :: "int \<Rightarrow> int \<Rightarrow> int \<Rightarrow> int \<times> int \<Rightarrow> bool" where
  "hline_cov x0 x1 y p = (snd p = y \<and> min x0 x1 \<le> fst p \<and> fst p \<le> max x0 x1)"

definition rectangle_cov :: "int \<times> int \<times> int \<times> int \<Rightarrow> int \<times> int \<Rightarrow> bool" where
  "rectangle_cov box p = (case box of (x0, y0, x1, y1) \<Rightarrow>
     x0 \<le> fst p \<and> fst p \<le> x1 \<and> y0 \<le> snd p \<and> snd p \<le> y1)"

text \<open>\<open>draw.line([(x0, y), (x1, y)], fill=...)\<close>\<close>

definition draw_line :: "image \<Rightarrow> int \<Rightarrow> int \<Rightarrow> int \<Rightarrow> int list \<Rightarrow> error + image" where
  "draw_line img x0 x1 y fill =
     ebind (getink (mode img) fill) (\<lambda>ink. Inr (paint img (hline_cov x0 x1 y) ink))"

definition draw_rectangle ::
  "rasterizer \<Rightarrow> image \<Rightarrow> int \<times> int \<times> int \<times> int \<Rightarrow> int list \<Rightarrow> error + image" where
  "draw_rectangle R img box fill = (case box of (x0, y0, x1, y1) \<Rightarrow>
     if strict_boxes R \<and> (x1 < x0 \<or> y1 < y0) then Inl ValueError
     else ebind (getink (mode img) fill) (\<lambda>ink. Inr (paint img (rectangle_cov box) ink)))"

definition draw_ellipse ::
  "rasterizer \<Rightarrow> image \<Rightarrow> real \<times> real \<times> real \<times> real \<Rightarrow> int list \<Rightarrow> error + image" where
  "draw_ellipse R img box fill = (case box of (x0, y0, x1, y1) \<Rightarrow>
     if strict_boxes R \<and> (x1 < x0 \<or> y1 < y0) then Inl ValueError
     else ebind (getink (mode img) fill) (\<lambda>ink. Inr (paint img (ellipse_cov R box) ink)))"

definition draw_polygon ::
  "rasterizer \<Rightarrow> image \<Rightarrow> (real \<times> real) list \<Rightarrow> int list \<Rightarrow> error + image" where
  "draw_polygon R img pts fill =
     (if length pts < 2 then Inl TypeError
      else ebind (getink (mode img) fill) (\<lambda>ink. Inr (paint img (polygon_cov R pts) ink)))"

definition draw_rounded_rectangle ::
  "rasterizer \<Rightarrow> image \<Rightarrow> int \<times> int \<times> int \<times> int \<Rightarrow> int \<Rightarrow> int list \<Rightarrow> error + image" where
  "draw_rounded_rectangle R img box radius fill = (case box of (x0, y0, x1, y1) \<Rightarrow>
     if x1 < x0 \<or> y1 < y0 then Inl ValueError
     else ebind (getink (mode img) fill) (\<lambda>ink. Inr (paint img (rounded_cov R box radius) ink)))"

text \<open>
  \<open>dst.paste(src, mask=mask)\<close>: where the mask is 255 the source cell is copied, where it
  is 0 the destination stays; the scripts' masks hold no other value (for one, the
  library mixes the two cells, bandwise).
\<close>

definition muldiv255 :: "int \<Rightarrow> int \<Rightarrow> int" where
  "muldiv255 a b = (let tmp = a * b + 128 in (tmp div 256 + tmp) div 256)"

definition blend8 :: "int \<Rightarrow> int \<Rightarrow> int \<Rightarrow> int" where
  "blend8 m d s = muldiv255 d (255 - m) + muldiv255 s m"

fun paste_px :: "pixel option \<Rightarrow> pixel option \<Rightarrow> pixel option \<Rightarrow> pixel option" where
  "paste_px (Some (Rgb dr dg db)) (Some (Rgb sr sg sb)) (Some (Lum m)) =
     (if m = 255 then Some (Rgb sr sg sb)
      else if m = 0 then Some (Rgb dr dg db)
      else Some (Rgb (blend8 m dr sr) (blend8 m dg sg) (blend8 m db sb)))"
| "paste_px d s m = d"

definition paste :: "image \<Rightarrow> image \<Rightarrow> image \<Rightarrow> error + image" where
  "paste dst src msk =
     (if width src \<noteq> width dst \<or> height src \<noteq> height dst
         \<or> width msk \<noteq> width dst \<or> height msk \<noteq> height dst
         \<or> mode msk \<noteq> ModeL
      then Inl ValueError
      else Inr (dst\<lparr>px := (\<lambda>p. paste_px (px dst p) (px src p) (px msk p))\<rparr>))"

definition convert_RGB :: "image \<Rightarrow> image" where
  "convert_RGB img = img\<lparr>mode := ModeRGB,
     px := (\<lambda>p. case px img p of Some (Lum v) \<Rightarrow> Some (Rgb v v v) | c \<Rightarrow> c)\<rparr>"

text \<open>
  \<open>img.save(path, 'PNG')\<close>: the file system maps a path to the raster stored there. An
  image without pixels cannot be written: the encoder refuses it with \<open>ValueError\<close>.
\<close>

type_synonym files = "string \<Rightarrow> image option"

definition save :: "image \<Rightarrow> string \<Rightarrow> files \<Rightarrow> error + files" where
  "save img path fs =
     (if width img = 0 \<or> height img = 0 then Inl ValueError else Inr (fs(path \<mapsto> img)))"


section \<open>Geometry of the glyphs\<close>

text \<open>
  The glyph coordinates are floats that go to the rasterizer and are never truncated by
  the scripts; they are modelled as reals, \<open>math.sin\<close>, \<open>math.cos\<close> and \<open>math.pi\<close> as
  \<^term>\<open>sin\<close>, \<^term>\<open>cos\<close> and \<^term>\<open>pi\<close>.
\<close>

definition radians :: "int \<Rightarrow> real" where
  "radians a = real_of_int a * (pi / 180)"

definition heart_x :: "real \<Rightarrow> real" where
  "heart_x t = 16 * (sin t) ^ 3"

definition heart_y :: "real \<Rightarrow> real" where
  "heart_y t = - (13 * cos t - 5 * cos (2 * t) - 2 * cos (3 * t) - cos (4 * t))"


section \<open>The solid style: \<^verbatim>\<open>create_solid_icons.py\<close>\<close>

definition gradient_solid :: "int \<Rightarrow> int \<Rightarrow> int list" where
  "gradient_solid sz y = (let progress = fdiv (of_int y) (of_int sz);
       r = py_int (fadd (fmul 100 (fsub 1 progress)) (fmul 50 progress));
       g = py_int (fadd (fmul 150 (fsub 1 progress)) (fmul 100 progress));
       b = py_int (fadd (fmul 200 (fsub 1 progress)) (fmul 150 progress))
     in [r, g, b])"

definition background_solid :: "image \<Rightarrow> int \<Rightarrow> error + image" where
  "background_solid img sz =
     efold (\<lambda>y im. draw_line im 0 sz y (gradient_solid sz y)) (range1 sz) img"

definition cross_solid :: "rasterizer \<Rightarrow> image \<Rightarrow> int \<Rightarrow> error + image" where
  "cross_solid R img sz =
    (let center_x = sz div 2; center_y = sz div 2;
         cross_size = sz div 3;
         cross_width = max 4 (sz div 20)
     in
     ebind (draw_rectangle R img
              (center_x - cross_size div 2, center_y - cross_width div 2,
               center_x + cross_size div 2, center_y + cross_width div 2) [255, 255, 255]) (\<lambda>img.
     draw_rectangle R img
              (center_x - cross_width div 2, center_y - cross_size div 2,
               center_x + cross_width div 2, center_y + cross_size div 2) [255, 255, 255]))"

definition render_solid_app_icon :: "rasterizer \<Rightarrow> int \<Rightarrow> error + image" where
  "render_solid_app_icon R sz =
     ebind (Image_new ModeRGB (sz, sz) [255, 255, 255]) (\<lambda>img.
     ebind (background_solid img sz) (\<lambda>img.
     ebind (cross_solid R img sz) (\<lambda>img.
     Inr (if mode img \<noteq> ModeRGB then convert_RGB img else img))))"

definition create_solid_app_icon :: "rasterizer \<Rightarrow> int \<Rightarrow> string \<Rightarrow> files \<Rightarrow> error + files" where
  "create_solid_app_icon R sz output_path fs =
     ebind (render_solid_app_icon R sz) (\<lambda>img. save img output_path fs)"


section \<open>The heart-and-plus style: \<^verbatim>\<open>create_icons.py\<close>\<close>

definition gradient_icons :: "int \<Rightarrow> int \<Rightarrow> int list" where
  "gradient_icons sz y = (let progress = fdiv (of_int y) (of_int sz);
       r = py_int (fadd (fmul 52 (fsub 1 progress)) (fmul 34 progress));
       g = py_int (fadd (fmul 199 (fsub 1 progress)) (fmul 139 progress));
       b = py_int (fadd (fmul 89 (fsub 1 progress)) (fmul 34 progress))
     in [r, g, b])"

definition background_icons :: "image \<Rightarrow> int \<Rightarrow> error + image" where
  "background_icons img sz =
     efold (\<lambda>y im. draw_line im 0 sz y (gradient_icons sz y)) (range1 sz) img"

definition corners_icons :: "rasterizer \<Rightarrow> image \<Rightarrow> int \<Rightarrow> error + image" where
  "corners_icons R img sz =
    (let corner_radius = sz div 6 in
     ebind (Image_new ModeL (sz, sz) [0]) (\<lambda>msk.
     ebind (draw_rounded_rectangle R msk (0, 0, sz, sz) corner_radius [255]) (\<lambda>msk.
     ebind (Image_new ModeRGB (sz, sz) [255, 255, 255]) (\<lambda>final_img.
     paste final_img img msk))))"

definition heart_points_icons :: "int \<Rightarrow> (real \<times> real) list" where
  "heart_points_icons sz =
    (let center_x = sz div 2; center_y = sz div 2; heart_size = sz div 3 in
     map (\<lambda>angle.
        let t = radians angle; x = heart_x t; y = heart_y t in
        (real_of_int center_x + x * real_of_int heart_size / 32,
         real_of_int center_y + y * real_of_int heart_size / 32))
       (range3 0 360 5))"

definition heart_icons :: "rasterizer \<Rightarrow> image \<Rightarrow> int \<Rightarrow> error + image" where
  "heart_icons R final_img sz =
    (let heart_points = heart_points_icons sz;
         shadow_points = map (\<lambda>(x, y). (x + 2, y + 2)) heart_points
     in
     ebind (draw_polygon R final_img shadow_points [0, 0, 0]) (\<lambda>final_img.
     draw_polygon R final_img heart_points [255, 255, 255]))"

definition plus_icons :: "rasterizer \<Rightarrow> image \<Rightarrow> int \<Rightarrow> error + image" where
  "plus_icons R final_img sz =
    (let center_x = sz div 2; center_y = sz div 2; heart_size = sz div 3;
         plus_size = sz div 8;
         plus_thickness = max 2 (sz div 40);
         plus_x = center_x + heart_size div 2 + plus_size div 2;
         plus_y = center_y - heart_size div 2 - plus_size div 2
     in
     ebind (draw_ellipse R final_img
              (real_of_int (plus_x - plus_size), real_of_int (plus_y - plus_size),
               real_of_int (plus_x + plus_size), real_of_int (plus_y + plus_size))
              [255, 255, 255]) (\<lambda>final_img.
     ebind (draw_rectangle R final_img
              (plus_x - plus_thickness div 2, plus_y - plus_size + 2,
               plus_x + plus_thickness div 2, plus_y + plus_size - 2) [52, 199, 89]) (\<lambda>final_img.
     draw_rectangle R final_img
              (plus_x - plus_size + 2, plus_y - plus_thickness div 2,
               plus_x + plus_size - 2, plus_y + plus_thickness div 2) [52, 199, 89])))"

definition render_app_icon :: "rasterizer \<Rightarrow> int \<Rightarrow> error + image" where
  "render_app_icon R sz =
     ebind (Image_new ModeRGB (sz, sz) [255, 255, 255]) (\<lambda>img.
     ebind (background_icons img sz) (\<lambda>img.
     ebind (corners_icons R img sz) (\<lambda>final_img.
     ebind (heart_icons R final_img sz) (\<lambda>final_img.
     plus_icons R final_img sz))))"

definition create_app_icon :: "rasterizer \<Rightarrow> int \<Rightarrow> string \<Rightarrow> files \<Rightarrow> error + files" where
  "create_app_icon R sz output_path fs =
     ebind (render_app_icon R sz) (\<lambda>final_img. save final_img output_path fs)"


section \<open>The heart-and-gear style: \<^verbatim>\<open>create_beautiful_icons.py\<close>\<close>

definition heart_color :: "int list" where
  "heart_color = [52, 199, 89]"

definition gradient_beautiful :: "int \<Rightarrow> int \<Rightarrow> int list" where
  "gradient_beautiful sz y = (let progress = fdiv (of_int y) (of_int sz);
       r = py_int (fmul 255 (fsub 1 (fmul progress (fl (1 / 10)))));
       g = py_int (fmul 255 (fsub 1 (fmul progress (fl (5 / 100)))));
       b = py_int (fmul 255 (fsub 1 (fmul progress (fl (1 / 10)))))
     in [r, g, b])"

definition background_beautiful :: "image \<Rightarrow> int \<Rightarrow> error + image" where
  "background_beautiful img sz =
     efold (\<lambda>y im. draw_line im 0 sz y (gradient_beautiful sz y)) (range1 sz) img"

definition corners_beautiful :: "rasterizer \<Rightarrow> image \<Rightarrow> int \<Rightarrow> error + image" where
  "corners_beautiful R img sz =
    (let corner_radius = sz div 8 in
     ebind (Image_new ModeL (sz, sz) [0]) (\<lambda>msk.
     ebind (draw_rounded_rectangle R msk (0, 0, sz, sz) corner_radius [255]) (\<lambda>msk.
     ebind (Image_new ModeRGB (sz, sz) [248, 249, 250]) (\<lambda>final_img.
     paste final_img img msk))))"

definition heart_points_beautiful :: "int \<Rightarrow> (real \<times> real) list" where
  "heart_points_beautiful sz =
    (let center_x = sz div 2; center_y = sz div 2; heart_size = sz div 3 in
     map (\<lambda>t.
        let t_rad = real_of_int t / 100; x = heart_x t_rad; y = heart_y t_rad;
            scale = real_of_int heart_size / 20
        in (real_of_int center_x + x * scale, real_of_int center_y + y * scale))
       (range3 0 628 5))"

definition heart_beautiful :: "rasterizer \<Rightarrow> image \<Rightarrow> int \<Rightarrow> error + image" where
  "heart_beautiful R final_img sz =
    (let heart_points = heart_points_beautiful sz;
         shadow_offset = max 2 (sz div 200);
         shadow_points = map (\<lambda>(x, y). (x + real_of_int shadow_offset, y + real_of_int shadow_offset))
                           heart_points
     in
     ebind (draw_polygon R final_img shadow_points [200, 200, 200]) (\<lambda>final_img.
     ebind (draw_polygon R final_img heart_points heart_color) (\<lambda>final_img.
     let highlight_points =
           map (\<lambda>(x, y). (x - real_of_int (shadow_offset div 2), y - real_of_int (shadow_offset div 2)))
             (take (length heart_points div 3) heart_points)
     in
     if highlight_points \<noteq> [] then draw_polygon R final_img highlight_points [82, 229, 119]
     else Inr final_img)))"

definition gear_tooth :: "int \<Rightarrow> int \<Rightarrow> int \<Rightarrow> int \<Rightarrow> (real \<times> real) list" where
  "gear_tooth gear_x gear_y gear_radius i =
    (let num_teeth = 8;
         angle = (2 * pi * real_of_int i) / real_of_int num_teeth;
         outer_x = real_of_int gear_x + real_of_int (gear_radius + 3) * cos angle;
         outer_y = real_of_int gear_y + real_of_int (gear_radius + 3) * sin angle;
         angle1 = angle - 2 / 10;
         angle2 = angle + 2 / 10;
         inner_x1 = real_of_int gear_x + real_of_int gear_radius * cos angle1;
         inner_y1 = real_of_int gear_y + real_of_int gear_radius * sin angle1;
         inner_x2 = real_of_int gear_x + real_of_int gear_radius * cos angle2;
         inner_y2 = real_of_int gear_y + real_of_int gear_radius * sin angle2
     in [(outer_x, outer_y), (inner_x1, inner_y1), (inner_x2, inner_y2)])"

definition gear_beautiful :: "rasterizer \<Rightarrow> image \<Rightarrow> int \<Rightarrow> error + image" where
  "gear_beautiful R final_img sz =
    (let center_x = sz div 2; center_y = sz div 2; heart_size = sz div 3;
         gear_size = sz div 6;
         gear_x = center_x + heart_size div 2 + gear_size div 2;
         gear_y = center_y - heart_size div 2 - gear_size div 2;
         gear_radius = gear_size div 2
     in
     ebind (draw_ellipse R final_img
              (real_of_int (gear_x - gear_radius), real_of_int (gear_y - gear_radius),
               real_of_int (gear_x + gear_radius), real_of_int (gear_y + gear_radius))
              [255, 255, 255]) (\<lambda>final_img.
     ebind (efold (\<lambda>i im. draw_polygon R im (gear_tooth gear_x gear_y gear_radius i) [100, 100, 100])
              (range1 8) final_img) (\<lambda>final_img.
     let inner_radius = gear_radius div 2 in
     draw_ellipse R final_img
              (real_of_int (gear_x - inner_radius), real_of_int (gear_y - inner_radius),
               real_of_int (gear_x + inner_radius), real_of_int (gear_y + inner_radius))
              [150, 150, 150])))"

definition plus_beautiful :: "rasterizer \<Rightarrow> image \<Rightarrow> int \<Rightarrow> error + image" where
  "plus_beautiful R final_img sz =
    (let center_x = sz div 2; center_y = sz div 2; heart_size = sz div 3;
         plus_size = sz div 8;
         plus_x = center_x + heart_size div 2;
         plus_y = center_y + heart_size div 2;
         plus_thickness = max 3 (sz div 60);
         plus_bg_radius = plus_size div 2 + 2
     in
     ebind (draw_ellipse R final_img
              (real_of_int (plus_x - plus_bg_radius), real_of_int (plus_y - plus_bg_radius),
               real_of_int (plus_x + plus_bg_radius), real_of_int (plus_y + plus_bg_radius))
              [255, 255, 255]) (\<lambda>final_img.
     ebind (draw_rectangle R final_img
              (plus_x - plus_size div 2, plus_y - plus_thickness div 2,
               plus_x + plus_size div 2, plus_y + plus_thickness div 2) heart_color) (\<lambda>final_img.
     draw_rectangle R final_img
              (plus_x - plus_thickness div 2, plus_y - plus_size div 2,
               plus_x + plus_thickness div 2, plus_y + plus_size div 2) heart_color)))"

definition dot_box :: "int \<Rightarrow> int \<Rightarrow> real \<times> real \<times> real \<times> real" where
  "dot_box sz i =
    (let center_x = sz div 2; center_y = sz div 2; heart_size = sz div 3;
         dot_radius = max 2 (sz div 100);
         num_dots = 6;
         dot_distance = heart_size + 20;
         angle = (2 * pi * real_of_int i) / real_of_int num_dots;
         dot_x = real_of_int center_x + real_of_int dot_distance * cos angle;
         dot_y = real_of_int center_y + real_of_int dot_distance * sin angle
     in (dot_x - real_of_int dot_radius, dot_y - real_of_int dot_radius,
         dot_x + real_of_int dot_radius, dot_y + real_of_int dot_radius))"

definition dot_fill :: "int list" where
  "dot_fill = [heart_color ! 0, heart_color ! 1, heart_color ! 2, 180]"

definition dots_beautiful :: "rasterizer \<Rightarrow> image \<Rightarrow> int \<Rightarrow> error + image" where
  "dots_beautiful R final_img sz =
     efold (\<lambda>i im. draw_ellipse R im (dot_box sz i) dot_fill) (range1 6) final_img"

definition render_beautiful_app_icon :: "rasterizer \<Rightarrow> int \<Rightarrow> error + image" where
  "render_beautiful_app_icon R sz =
     ebind (Image_new ModeRGB (sz, sz) [255, 255, 255]) (\<lambda>img.
     ebind (background_beautiful img sz) (\<lambda>img.
     ebind (corners_beautiful R img sz) (\<lambda>final_img.
     ebind (heart_beautiful R final_img sz) (\<lambda>final_img.
     ebind (gear_beautiful R final_img sz) (\<lambda>final_img.
     ebind (plus_beautiful R final_img sz) (\<lambda>final_img.
     dots_beautiful R final_img sz))))))"

definition create_beautiful_app_icon ::
  "rasterizer \<Rightarrow> int \<Rightarrow> string \<Rightarrow> files \<Rightarrow> error + files" where
  "create_beautiful_app_icon R sz output_path fs =
     ebind (render_beautiful_app_icon R sz) (\<lambda>final_img. save final_img output_path fs)"


section \<open>The icon catalog\<close>

definition catalog :: "int list" where
  "catalog = [20, 29, 40, 58, 60, 76, 80, 87, 120, 152, 154, 167, 180, 1024]"


section \<open>A geometric rasterizer\<close>

text \<open>
  One instance of the rasterizer, for evaluating the scripts at concrete sizes: a cell is
  covered when the point of its integer coordinates lies in the closed ideal shape. A
  polygon is filled by the even-odd rule along the scan line to the right of the point.
  Boxes with \<open>x1 < x0\<close> are rejected.
\<close>

definition geom_ellipse :: "real \<times> real \<times> real \<times> real \<Rightarrow> int \<times> int \<Rightarrow> bool" where
  "geom_ellipse box p = (case box of (x0, y0, x1, y1) \<Rightarrow>
     (let x = real_of_int (fst p); y = real_of_int (snd p);
          a = (x1 - x0) / 2; b = (y1 - y0) / 2;
          cx = (x0 + x1) / 2; cy = (y0 + y1) / 2
      in x0 \<le> x \<and> x \<le> x1 \<and> y0 \<le> y \<and> y \<le> y1 \<and>
         (x - cx)\<^sup>2 * b\<^sup>2 + (y - cy)\<^sup>2 * a\<^sup>2 \<le> a\<^sup>2 * b\<^sup>2))"

definition geom_rounded :: "int \<times> int \<times> int \<times> int \<Rightarrow> int \<Rightarrow> int \<times> int \<Rightarrow> bool" where
  "geom_rounded box r p = (case box of (x0, y0, x1, y1) \<Rightarrow>
     (let x = fst p; y = snd p;
          dx = max 0 (max (x0 + r - x) (x - (x1 - r)));
          dy = max 0 (max (y0 + r - y) (y - (y1 - r)))
      in x0 \<le> x \<and> x \<le> x1 \<and> y0 \<le> y \<and> y \<le> y1 \<and> dx * dx + dy * dy \<le> r * r))"

definition edges :: "'a list \<Rightarrow> ('a \<times> 'a) list" where
  "edges ps = zip ps (rotate1 ps)"

definition crossing :: "int \<times> int \<Rightarrow> (real \<times> real) \<times> (real \<times> real) \<Rightarrow> bool" where
  "crossing p e = (case e of ((x1, y1), (x2, y2)) \<Rightarrow>
     (let x = real_of_int (fst p); y = real_of_int (snd p)
      in ((y1 \<le> y \<and> y < y2) \<or> (y2 \<le> y \<and> y < y1)) \<and>
         x < x1 + (y - y1) * (x2 - x1) / (y2 - y1)))"

definition geom_polygon :: "(real \<times> real) list \<Rightarrow> int \<times> int \<Rightarrow> bool" where
  "geom_polygon pts p = odd (length (filter (crossing p) (edges pts)))"

definition geometric :: rasterizer where
  "geometric = \<lparr>ellipse_cov = geom_ellipse, polygon_cov = geom_polygon,
                 rounded_cov = geom_rounded, strict_boxes = True\<rparr>"


section \<open>Well-formed results\<close>

fun is_rgb :: "pixel \<Rightarrow> bool" where
  "is_rgb (Rgb r g b) = True"
| "is_rgb (Lum v) = False"

text \<open>
  An RGB raster: mode \<open>RGB\<close>, a cell for exactly the points of the canvas, and three
  bands in every cell (no alpha band).
\<close>

definition wf_rgb :: "image \<Rightarrow> bool" where
  "wf_rgb img = (mode img = ModeRGB \<and>
     (\<forall>p. (px img p = None) = (\<not> inside (width img) (height img) p)) \<and>
     (\<forall>p c. px img p = Some c \<longrightarrow> is_rgb c))"

definition renders :: "int \<Rightarrow> error + image \<Rightarrow> bool" where
  "renders sz r = (case r of Inl e \<Rightarrow> False
     | Inr img \<Rightarrow> wf_rgb img \<and> width img = sz \<and> height img = sz)"


section \<open>What the gradient claims compare\<close>

text \<open>The unit roundoff of a double.\<close>

definition unit_roundoff :: rat where
  "unit_roundoff = 1 / 2 ^ 53"

text \<open>
  The spec's formula for one channel of row \<open>y\<close>, in exact arithmetic, and the colour it
  gives for the two ends of a style. The ends of the heart-and-gear style are those its
  factors 0.1 and 0.05 imply.
\<close>

definition spec_channel :: "rat \<Rightarrow> rat \<Rightarrow> int \<Rightarrow> int \<Rightarrow> rat" where
  "spec_channel start stop sz y =
     start * (1 - of_int y / of_int sz) + stop * (of_int y / of_int sz)"

definition spec_gradient :: "(rat \<times> rat) list \<Rightarrow> int \<Rightarrow> int \<Rightarrow> int list" where
  "spec_gradient ends sz y = map (\<lambda>(start, stop). py_int (spec_channel start stop sz y)) ends"

definition ends_icons :: "(rat \<times> rat) list" where
  "ends_icons = [(52, 34), (199, 139), (89, 34)]"

definition ends_solid :: "(rat \<times> rat) list" where
  "ends_solid = [(100, 50), (150, 100), (200, 150)]"

definition ends_beautiful :: "(rat \<times> rat) list" where
  "ends_beautiful = [(255, 255 * (1 - 1 / 10)), (255, 255 * (1 - 5 / 100)), (255, 255 * (1 - 1 / 10))]"

text \<open>
  A channel is the truncation of the exact value, or one less where the exact value is a
  whole number.
\<close>

definition float_trunc :: "int \<Rightarrow> rat \<Rightarrow> bool" where
  "float_trunc c v = (c = py_int v \<or> (c = py_int v - 1 \<and> of_int (py_int v) = v))"

text \<open>The canvas after the gradient loop, before anything else is drawn or pasted.\<close>

definition gradient_image_icons :: "int \<Rightarrow> error + image" where
  "gradient_image_icons sz =
     ebind (Image_new ModeRGB (sz, sz) [255, 255, 255]) (\<lambda>img. background_icons img sz)"

definition gradient_image_solid :: "int \<Rightarrow> error + image" where
  "gradient_image_solid sz =
     ebind (Image_new ModeRGB (sz, sz) [255, 255, 255]) (\<lambda>img. background_solid img sz)"

text \<open>The average colour of a row, band by band.\<close>

fun channels :: "pixel option \<Rightarrow> int list" where
  "channels (Some (Rgb r g b)) = [r, g, b]"
| "channels (Some (Lum v)) = [v, v, v]"
| "channels None = [0, 0, 0]"

definition row_avg :: "image \<Rightarrow> int \<Rightarrow> rat list" where
  "row_avg img y =
     (let row = map (\<lambda>x. channels (px img (x, y))) [0 .. width img - 1]
      in map (\<lambda>band. of_int (sum_list (map (\<lambda>c. c ! band) row)) / of_int (width img))
           [0, 1, 2])"

definition near :: "rat \<Rightarrow> rat list \<Rightarrow> rat list \<Rightarrow> bool" where
  "near tol xs ys = list_all2 (\<lambda>x y. \<bar>x - y\<bar> \<le> tol) xs ys"

text \<open>
  The top row matches the start colour within \<open>t0\<close> and the bottom row the end colour
  within \<open>t1\<close>, in every band.
\<close>

definition rows_match :: "rat \<Rightarrow> rat \<Rightarrow> (rat \<times> rat) list \<Rightarrow> error + image \<Rightarrow> bool" where
  "rows_match t0 t1 ends r = (case r of Inl e \<Rightarrow> False
     | Inr img \<Rightarrow> near t0 (row_avg img 0) (map fst ends) \<and>
                 near t1 (row_avg img (height img - 1)) (map snd ends))"


section \<open>Reading a cell of a result\<close>

text \<open>\<open>img.getpixel(p)\<close> on the result of a render function.\<close>

definition pixel_at :: "error + image \<Rightarrow> int \<times> int \<Rightarrow> error + pixel" where
  "pixel_at r p = ebind r (\<lambda>img. getpixel img p)"

text \<open>A call succeeds and leaves the cell \<open>p\<close> as it was.\<close>

definition keeps :: "int \<Rightarrow> int \<times> int \<Rightarrow> image \<Rightarrow> error + image \<Rightarrow> bool" where
  "keeps sz p img r = (case r of Inl e \<Rightarrow> False
     | Inr im \<Rightarrow> renders sz (Inr im) \<and> px im p = px img p)"

text \<open>A point lies in an axis-parallel box.\<close>

definition in_box :: "real \<Rightarrow> real \<Rightarrow> real \<Rightarrow> real \<Rightarrow> real \<times> real \<Rightarrow> bool" where
  "in_box x0 y0 x1 y1 v = (x0 \<le> fst v \<and> fst v \<le> x1 \<and> y0 \<le> snd v \<and> snd v \<le> y1)"

section \<open>The centre of a glyph\<close>




section \<open>Every call succeeds and keeps the canvas\<close>

lemma ebind_Inr [simp]: "ebind (Inr a) f = f a"
  by (simp add: ebind_def)

lemma ebind_Inl [simp]: "ebind (Inl e) f = Inl e"
  by (simp add: ebind_def)

lemma renders_Inr [simp]: "renders sz (Inr img) = (wf_rgb img \<and> width img = sz \<and> height img = sz)"
  by (simp add: renders_def)

lemma renders_Inl [simp]: "\<not> renders sz (Inl e)"
  by (simp add: renders_def)

lemma renders_ebind:
  assumes "renders sz m" and "\<And>img. renders sz (Inr img) \<Longrightarrow> renders sz (f img)"
  shows "renders sz (ebind m f)"
  using assms by (cases m) auto

lemma renders_efold:
  assumes "\<And>x img. x \<in> set xs \<Longrightarrow> renders sz (Inr img) \<Longrightarrow> renders sz (f x img)"
    and "renders sz (Inr img)"
  shows "renders sz (efold f xs img)"
  using assms
proof (induction xs arbitrary: img)
  case Nil
  then show ?case by simp
next
  case (Cons x xs)
  have "renders sz (f x img)" using Cons.prems by simp
  then show ?case
    using Cons by (cases "f x img") auto
qed

lemma wf_rgb_paint:
  assumes "wf_rgb img" and "is_rgb ink"
  shows "wf_rgb (paint img cov ink)"
  using assms by (auto simp: wf_rgb_def paint_def split: option.splits)

lemma paint_frame [simp]:
  "width (paint img cov ink) = width img" "height (paint img cov ink) = height img"
  "mode (paint img cov ink) = mode img"
  by (simp_all add: paint_def)

lemma getink_rgb:
  assumes "length fill = 3 \<or> length fill = 4"
  shows "\<exists>ink. getink ModeRGB fill = Inr ink \<and> is_rgb ink"
proof -
  from assms consider (three) r g b where "fill = [r, g, b]"
    | (four) r g b a where "fill = [r, g, b, a]"
    by (auto simp: length_Suc_conv numeral_3_eq_3 numeral_eq_Suc)
  then show ?thesis by cases auto
qed

lemma renders_new:
  assumes "0 \<le> sz" and "sz < 2 ^ 31" and "length fill = 3 \<or> length fill = 4"
  shows "renders sz (Image_new ModeRGB (sz, sz) fill)"
proof -
  obtain ink where "getink ModeRGB fill = Inr ink" "is_rgb ink"
    using getink_rgb [OF assms(3)] by blast
  then show ?thesis
    using assms(1,2) by (simp add: Image_new_def wf_rgb_def)
qed

lemma renders_paint_op:
  assumes "renders sz (Inr img)" and "length fill = 3 \<or> length fill = 4"
  shows "renders sz (ebind (getink (mode img) fill) (\<lambda>ink. Inr (paint img cov ink)))"
proof -
  have m: "mode img = ModeRGB" using assms(1) by (simp add: wf_rgb_def)
  obtain ink where "getink ModeRGB fill = Inr ink" "is_rgb ink"
    using getink_rgb [OF assms(2)] by blast
  then show ?thesis
    using assms(1) m by (simp add: wf_rgb_paint)
qed

lemma renders_line:
  assumes "renders sz (Inr img)" and "length fill = 3 \<or> length fill = 4"
  shows "renders sz (draw_line img x0 x1 y fill)"
  unfolding draw_line_def by (rule renders_paint_op [OF assms])

lemma renders_rectangle:
  assumes "renders sz (Inr img)" and "length fill = 3 \<or> length fill = 4"
    and "strict_boxes R \<Longrightarrow> x0 \<le> x1 \<and> y0 \<le> y1"
  shows "renders sz (draw_rectangle R img (x0, y0, x1, y1) fill)"
  using assms(3) renders_paint_op [OF assms(1,2)]
  by (auto simp: draw_rectangle_def)

lemma renders_ellipse:
  assumes "renders sz (Inr img)" and "length fill = 3 \<or> length fill = 4"
    and "strict_boxes R \<Longrightarrow> x0 \<le> x1 \<and> y0 \<le> y1"
  shows "renders sz (draw_ellipse R img (x0, y0, x1, y1) fill)"
  using assms(3) renders_paint_op [OF assms(1,2)]
  by (auto simp: draw_ellipse_def)

lemma renders_polygon:
  assumes "renders sz (Inr img)" and "length fill = 3 \<or> length fill = 4"
    and "2 \<le> length pts"
  shows "renders sz (draw_polygon R img pts fill)"
  using assms(3) renders_paint_op [OF assms(1,2)]
  by (auto simp: draw_polygon_def)

lemma paste_px_rgb:
  assumes "d = None \<or> (\<exists>c. d = Some c \<and> is_rgb c)"
  shows "(paste_px d s m = None \<longleftrightarrow> d = None) \<and> (\<forall>c. paste_px d s m = Some c \<longrightarrow> is_rgb c)"
  using assms by (induction d s m rule: paste_px.induct) auto

lemma wf_rgb_paste:
  assumes "wf_rgb dst"
  shows "wf_rgb (dst\<lparr>px := (\<lambda>p. paste_px (px dst p) (px src p) (px msk p))\<rparr>)"
proof -
  have d: "px dst p = None \<or> (\<exists>c. px dst p = Some c \<and> is_rgb c)" for p
    using assms unfolding wf_rgb_def by (cases "px dst p") blast+
  show ?thesis
    using assms paste_px_rgb [OF d] by (simp add: wf_rgb_def)
qed

lemma renders_paste:
  assumes "renders sz (Inr dst)" and "width src = sz" "height src = sz"
    and "width msk = sz" "height msk = sz" "mode msk = ModeL"
  shows "renders sz (paste dst src msk)"
  using assms by (simp add: paste_def wf_rgb_paste)

lemma length_range3 [simp]:
  "length (range3 start stop step) = nat ((stop - start + step - 1) div step)"
  by (simp add: range3_def)


lemma gradient_lengths [simp]:
  "length (gradient_icons sz y) = 3" "length (gradient_solid sz y) = 3"
  "length (gradient_beautiful sz y) = 3"
  by (simp_all add: gradient_icons_def gradient_solid_def gradient_beautiful_def Let_def)


lemma renders_background_icons:
  "renders sz (Inr img) \<Longrightarrow> renders sz (background_icons img sz)"
  unfolding background_icons_def by (rule renders_efold) (rule renders_line, simp_all)


lemma renders_background_solid:
  "renders sz (Inr img) \<Longrightarrow> renders sz (background_solid img sz)"
  unfolding background_solid_def by (rule renders_efold) (rule renders_line, simp_all)


lemma renders_background_beautiful:
  "renders sz (Inr img) \<Longrightarrow> renders sz (background_beautiful img sz)"
  unfolding background_beautiful_def by (rule renders_efold) (rule renders_line, simp_all)


lemma renders_mask_paste:
  assumes "renders sz (Inr img)" and "0 \<le> sz" and "sz < 2 ^ 31"
    and "length fill = 3 \<or> length fill = 4"
  shows "renders sz
     (ebind (Image_new ModeL (sz, sz) [0]) (\<lambda>msk.
      ebind (draw_rounded_rectangle R msk (0, 0, sz, sz) r [255]) (\<lambda>msk.
      ebind (Image_new ModeRGB (sz, sz) fill) (\<lambda>final_img.
      paste final_img img msk))))"
proof -
  have "renders sz (Image_new ModeRGB (sz, sz) fill)"
    using assms by (simp add: renders_new)
  then obtain f where f: "Image_new ModeRGB (sz, sz) fill = Inr f" "renders sz (Inr f)"
    by (cases "Image_new ModeRGB (sz, sz) fill") auto
  have "renders sz (paste f img (paint \<lparr>mode = ModeL, width = sz, height = sz,
            px = (\<lambda>p. if inside sz sz p then Some (Lum (clip8 0)) else None)\<rparr>
          (rounded_cov R (0, 0, sz, sz) r) (Lum (clip8 255))))"
    using assms(1) f(2) by (intro renders_paste) simp_all
  then show ?thesis
    using assms(2,3) f(1) by (simp add: Image_new_def draw_rounded_rectangle_def)
qed


lemma renders_corners_icons:
  "renders sz (Inr img) \<Longrightarrow> 0 \<le> sz \<Longrightarrow> sz < 2 ^ 31 \<Longrightarrow> renders sz (corners_icons R img sz)"
  unfolding corners_icons_def Let_def by (rule renders_mask_paste) simp_all


lemma renders_corners_beautiful:
  "renders sz (Inr img) \<Longrightarrow> 0 \<le> sz \<Longrightarrow> sz < 2 ^ 31
     \<Longrightarrow> renders sz (corners_beautiful R img sz)"
  unfolding corners_beautiful_def Let_def by (rule renders_mask_paste) simp_all


lemma length_heart_points [simp]:
  "length (heart_points_icons sz) = 72" "length (heart_points_beautiful sz) = 126"
  by (simp_all add: heart_points_icons_def heart_points_beautiful_def Let_def)

lemma renders_rectangle_centered:
  assumes "renders sz (Inr img)" and "length fill = 3 \<or> length fill = 4"
    and "0 \<le> a" and "0 \<le> b"
  shows "renders sz (draw_rectangle R img (cx - a, cy - b, cx + a, cy + b) fill)"
  using assms by (intro renders_rectangle) auto

lemma renders_ellipse_centered:
  assumes "renders sz (Inr img)" and "length fill = 3 \<or> length fill = 4"
    and "0 \<le> a"
  shows "renders sz (draw_ellipse R img
     (real_of_int (cx - a), real_of_int (cy - a), real_of_int (cx + a), real_of_int (cy + a)) fill)"
  using assms by (intro renders_ellipse) auto

lemma renders_heart_icons:
  "renders sz (Inr img) \<Longrightarrow> renders sz (heart_icons R img sz)"
  unfolding heart_icons_def Let_def
  by (intro renders_ebind renders_polygon) simp_all

lemma renders_cross_solid:
  assumes "renders sz (Inr img)" and "0 \<le> sz"
  shows "renders sz (cross_solid R img sz)"
proof -
  have a: "0 \<le> sz div 3 div 2" "0 \<le> max 4 (sz div 20) div 2"
    using assms(2) by simp_all
  have l: "length [255, 255, 255 :: int] = 3 \<or> length [255, 255, 255 :: int] = 4"
    by simp
  show ?thesis
    unfolding cross_solid_def Let_def
    by (rule renders_ebind [OF renders_rectangle_centered [OF assms(1) l a]])
       (rule renders_rectangle_centered [OF _ l a(2,1)])
qed

lemma renders_plus_icons:
  assumes "renders sz (Inr img)" and "0 \<le> sz" and "strict_boxes R \<Longrightarrow> 16 \<le> sz"
  shows "renders sz (plus_icons R img sz)"
proof -
  define s where "s = sz div 8"
  define t where "t = max 2 (sz div 40) div 2"
  have a: "0 \<le> s" "0 \<le> t"
    using assms(2) by (simp_all add: s_def t_def)
  have b: "2 \<le> s" if "strict_boxes R"
    using assms(3) [OF that] by (simp add: s_def)
  have l: "length [52, 199, 89 :: int] = 3 \<or> length [52, 199, 89 :: int] = 4"
    "length [255, 255, 255 :: int] = 3 \<or> length [255, 255, 255 :: int] = 4"
    by simp_all
  have r1: "renders sz (draw_rectangle R im (x - t, y - s + 2, x + t, y + s - 2) [52, 199, 89])"
    if "renders sz (Inr im)" for im x y
    using a b by (intro renders_rectangle [OF that l(1)]) auto
  have r2: "renders sz (draw_rectangle R im (x - s + 2, y - t, x + s - 2, y + t) [52, 199, 89])"
    if "renders sz (Inr im)" for im x y
    using a b by (intro renders_rectangle [OF that l(1)]) auto
  show ?thesis
    unfolding plus_icons_def Let_def s_def [symmetric] t_def [symmetric]
    by (intro renders_ebind renders_ellipse_centered [OF assms(1) l(2) a(1)] r1 r2)
qed

lemma renders_heart_beautiful:
  assumes "renders sz (Inr img)"
  shows "renders sz (heart_beautiful R img sz)"
proof -
  have l: "length heart_color = 3 \<or> length heart_color = 4"
    "length [200, 200, 200 :: int] = 3 \<or> length [200, 200, 200 :: int] = 4"
    "length [82, 229, 119 :: int] = 3 \<or> length [82, 229, 119 :: int] = 4"
    by (simp_all add: heart_color_def)
  have h: "renders sz (if pts \<noteq> [] then draw_polygon R im pts [82, 229, 119] else Inr im)"
    if "renders sz (Inr im)" and "2 \<le> length pts" for im pts
    using that renders_polygon [OF that(1) l(3) that(2)] by auto
  show ?thesis
    unfolding heart_beautiful_def Let_def
    by (intro renders_ebind renders_polygon [OF assms l(2)] renders_polygon [OF _ l(1)] h)
       simp_all
qed

lemma renders_gear_beautiful:
  assumes "renders sz (Inr img)" and "0 \<le> sz"
  shows "renders sz (gear_beautiful R img sz)"
proof -
  have a: "0 \<le> sz div 6 div 2" "0 \<le> sz div 6 div 2 div 2"
    using assms(2) by simp_all
  have l: "length [255, 255, 255 :: int] = 3 \<or> length [255, 255, 255 :: int] = 4"
    "length [100, 100, 100 :: int] = 3 \<or> length [100, 100, 100 :: int] = 4"
    "length [150, 150, 150 :: int] = 3 \<or> length [150, 150, 150 :: int] = 4"
    by simp_all
  have t: "2 \<le> length (gear_tooth x y r i)" for x y r i
    by (simp add: gear_tooth_def Let_def)
  show ?thesis
    unfolding gear_beautiful_def Let_def
    by (intro renders_ebind renders_efold renders_ellipse_centered [OF assms(1) l(1) a(1)]
          renders_ellipse_centered [OF _ l(3) a(2)] renders_polygon [OF _ l(2) t])
qed

lemma renders_plus_beautiful:
  assumes "renders sz (Inr img)" and "0 \<le> sz"
  shows "renders sz (plus_beautiful R img sz)"
proof -
  have a: "0 \<le> sz div 8 div 2" "0 \<le> max 3 (sz div 60) div 2" "0 \<le> sz div 8 div 2 + 2"
    using assms(2) by simp_all
  have l: "length [255, 255, 255 :: int] = 3 \<or> length [255, 255, 255 :: int] = 4"
    "length heart_color = 3 \<or> length heart_color = 4"
    by (simp_all add: heart_color_def)
  show ?thesis
    unfolding plus_beautiful_def Let_def
    by (intro renders_ebind renders_ellipse_centered [OF assms(1) l(1) a(3)]
          renders_rectangle_centered [OF _ l(2) a(1,2)]
          renders_rectangle_centered [OF _ l(2) a(2,1)])
qed

lemma dot_box_ordered:
  assumes "dot_box sz i = (x0, y0, x1, y1)"
  shows "x0 \<le> x1 \<and> y0 \<le> y1"
proof -
  have r: "(0::real) \<le> real_of_int (max 2 (sz div 100))"
    by simp
  have "x - d \<le> x + d" if "0 \<le> d" for x d :: real
    using that by simp
  then show ?thesis
    using assms r unfolding dot_box_def Let_def by blast
qed

lemma renders_dots_beautiful:
  assumes "renders sz (Inr img)"
  shows "renders sz (dots_beautiful R img sz)"
  unfolding dots_beautiful_def
proof (rule renders_efold [OF _ assms])
  fix i :: int and im
  assume im: "renders sz (Inr im)"
  obtain x0 y0 x1 y1 where b: "dot_box sz i = (x0, y0, x1, y1)"
    by (cases "dot_box sz i") auto
  have l: "length dot_fill = 3 \<or> length dot_fill = 4"
    by (simp add: dot_fill_def)
  show "renders sz (draw_ellipse R im (dot_box sz i) dot_fill)"
    unfolding b using dot_box_ordered [OF b] by (intro renders_ellipse [OF im l]) simp
qed

lemma renders_solid:
  assumes "0 \<le> sz" and "sz < 2 ^ 31"
  shows "renders sz (render_solid_app_icon R sz)"
proof -
  have l: "length [255, 255, 255 :: int] = 3 \<or> length [255, 255, 255 :: int] = 4"
    by simp
  have c: "renders sz (Inr (if mode im \<noteq> ModeRGB then convert_RGB im else im))"
    if "renders sz (Inr im)" for im
    using that by (simp add: wf_rgb_def)
  show ?thesis
    unfolding render_solid_app_icon_def
    by (intro renders_ebind renders_new [OF assms l] renders_background_solid
          renders_cross_solid c assms)
qed

lemma renders_icons:
  assumes "0 \<le> sz" and "sz < 2 ^ 31" and "strict_boxes R \<Longrightarrow> 16 \<le> sz"
  shows "renders sz (render_app_icon R sz)"
proof -
  have l: "length [255, 255, 255 :: int] = 3 \<or> length [255, 255, 255 :: int] = 4"
    by simp
  show ?thesis
    unfolding render_app_icon_def
    by (intro renders_ebind renders_new [OF assms(1,2) l] renders_background_icons
          renders_corners_icons renders_heart_icons renders_plus_icons assms)
qed

lemma renders_beautiful:
  assumes "0 \<le> sz" and "sz < 2 ^ 31"
  shows "renders sz (render_beautiful_app_icon R sz)"
proof -
  have l: "length [255, 255, 255 :: int] = 3 \<or> length [255, 255, 255 :: int] = 4"
    by simp
  show ?thesis
    unfolding render_beautiful_app_icon_def
    by (intro renders_ebind renders_new [OF assms l] renders_background_beautiful
          renders_corners_beautiful renders_heart_beautiful renders_gear_beautiful
          renders_plus_beautiful renders_dots_beautiful assms)
qed

lemma renders_split:
  assumes "renders sz m"
  shows "\<exists>a. m = Inr a \<and> renders sz (Inr a) \<and> ebind m f = f a"
  using assms by (cases m) auto

lemma isl_renders: "renders sz r \<Longrightarrow> \<not> isl r"
  by (cases r) auto

lemma new_negative: "sz < 0 \<Longrightarrow> Image_new m (sz, sz) fill = Inl ValueError"
  by (simp add: Image_new_def)

lemma new_overflow: "2 ^ 31 \<le> sz \<Longrightarrow> Image_new m (sz, sz) fill = Inl OverflowError"
  by (simp add: Image_new_def)

lemma clip8_byte [simp]: "0 \<le> v \<Longrightarrow> v \<le> 255 \<Longrightarrow> clip8 v = v"
  by (simp add: clip8_def)

lemma getink_dot_fill: "getink ModeRGB dot_fill = Inr (Rgb 52 199 89)"
  by (simp add: dot_fill_def heart_color_def)

lemma dot_step:
  assumes "renders sz (Inr im)"
  shows "draw_ellipse R im (dot_box sz i) dot_fill =
         Inr (paint im (ellipse_cov R (dot_box sz i)) (Rgb 52 199 89))"
proof -
  obtain x0 y0 x1 y1 where b: "dot_box sz i = (x0, y0, x1, y1)"
    by (cases "dot_box sz i") auto
  have m: "mode im = ModeRGB"
    using assms by (simp add: wf_rgb_def)
  show ?thesis
    using dot_box_ordered [OF b] by (simp add: draw_ellipse_def b m getink_dot_fill)
qed

lemma px_paint:
  "px (paint img cov ink) p =
     (if inside (width img) (height img) p \<and> cov p then Some ink else px img p)"
  by (simp add: paint_def)

lemma dots_efold:
  assumes "renders sz (Inr img)"
  shows "\<exists>im. efold (\<lambda>i im. draw_ellipse R im (dot_box sz i) dot_fill) xs img = Inr im \<and>
     renders sz (Inr im) \<and>
     (\<forall>p. px im p = (if inside sz sz p \<and> (\<exists>i\<in>set xs. ellipse_cov R (dot_box sz i) p)
                      then Some (Rgb 52 199 89) else px img p))"
  using assms
proof (induction xs arbitrary: img)
  case Nil
  then show ?case by simp
next
  case (Cons x xs)
  let ?im1 = "paint img (ellipse_cov R (dot_box sz x)) (Rgb 52 199 89)"
  have r1: "renders sz (Inr ?im1)"
    using Cons.prems by (simp add: wf_rgb_paint)
  obtain im where im: "efold (\<lambda>i im. draw_ellipse R im (dot_box sz i) dot_fill) xs ?im1 = Inr im"
      "renders sz (Inr im)"
      "\<And>p. px im p = (if inside sz sz p \<and> (\<exists>i\<in>set xs. ellipse_cov R (dot_box sz i) p)
                      then Some (Rgb 52 199 89) else px ?im1 p)"
    using Cons.IH [OF r1] by blast
  have "efold (\<lambda>i im. draw_ellipse R im (dot_box sz i) dot_fill) (x # xs) img = Inr im"
    using im(1) by (simp add: dot_step [OF Cons.prems])
  moreover have "px im p = (if inside sz sz p \<and> (\<exists>i\<in>set (x # xs). ellipse_cov R (dot_box sz i) p)
                      then Some (Rgb 52 199 89) else px img p)" for p
    using Cons.prems by (auto simp: im(3) px_paint)
  ultimately show ?case
    using im(2) by blast
qed

lemma render_beautiful_dots:
  assumes "0 \<le> sz" and "sz < 2 ^ 31"
  shows "\<exists>im. renders sz (Inr im) \<and> render_beautiful_app_icon R sz = dots_beautiful R im sz"
proof -
  have l: "length [255, 255, 255 :: int] = 3 \<or> length [255, 255, 255 :: int] = 4"
    by simp
  obtain a where a: "Image_new ModeRGB (sz, sz) [255, 255, 255] = Inr a" "renders sz (Inr a)"
    using renders_split [OF renders_new [OF assms l]] by blast
  obtain b where b: "background_beautiful a sz = Inr b" "renders sz (Inr b)"
    using renders_split [OF renders_background_beautiful [OF a(2)]] by blast
  obtain c where c: "corners_beautiful R b sz = Inr c" "renders sz (Inr c)"
    using renders_split [OF renders_corners_beautiful [OF b(2) assms]] by blast
  obtain d where d: "heart_beautiful R c sz = Inr d" "renders sz (Inr d)"
    using renders_split [OF renders_heart_beautiful [OF c(2)]] by blast
  obtain e where e: "gear_beautiful R d sz = Inr e" "renders sz (Inr e)"
    using renders_split [OF renders_gear_beautiful [OF d(2) assms(1)]] by blast
  obtain f where f: "plus_beautiful R e sz = Inr f" "renders sz (Inr f)"
    using renders_split [OF renders_plus_beautiful [OF e(2) assms(1)]] by blast
  have "render_beautiful_app_icon R sz = dots_beautiful R f sz"
    by (simp add: render_beautiful_app_icon_def a(1) b(1) c(1) d(1) e(1) f(1))
  then show ?thesis
    using f(2) by blast
qed

lemma dot_box_120_0: "dot_box 120 0 = (118, 58, 122, 62)"
  by (simp add: dot_box_def Let_def)

lemma dot_box_20_0: "dot_box 20 0 = (34, 8, 38, 12)"
  by (simp add: dot_box_def Let_def)


section \<open>Rounding error of the float operations\<close>

lemma pow2_pos [simp]: "0 < pow2 k"
  by (simp add: pow2_def)

lemma pow2_powi: "pow2 k = 2 powi k"
  by (simp add: pow2_def power_int_def field_simps)

lemma pow2_diff: "pow2 (a - b) = pow2 a / pow2 b"
  by (simp add: pow2_powi power_int_diff)

lemma pow2_nat: "pow2 (int n) = 2 ^ n"
  by (simp add: pow2_def)

lemma round_half_even_err: "\<bar>of_int (round_half_even x) - x\<bar> \<le> 1 / 2"
proof -
  have "of_int \<lfloor>x\<rfloor> \<le> x" "x < of_int \<lfloor>x\<rfloor> + 1"
    by linarith+
  then show ?thesis
    by (auto simp: round_half_even_def Let_def)
qed

lemma ilog2_le:
  assumes "x \<noteq> 0"
  shows "pow2 (ilog2 x) \<le> \<bar>x\<bar>"
proof -
  obtain p q where pq: "quotient_of \<bar>x\<bar> = (p, q)"
    by (cases "quotient_of \<bar>x\<bar>") auto
  have q: "0 < q"
    using quotient_of_denom_pos [OF pq] .
  have x: "\<bar>x\<bar> = of_int p / of_int q"
    using quotient_of_div [OF pq] .
  have p: "0 < p"
  proof -
    have "0 < \<bar>x\<bar>" using assms by simp
    then have "(0::rat) < of_int p / of_int q" using x by simp
    then show ?thesis using q by (simp add: zero_less_divide_iff)
  qed
  define k where "k = bitlen p - bitlen q"
  show ?thesis
  proof (cases "pow2 k \<le> \<bar>x\<bar>")
    case True
    then show ?thesis by (simp add: ilog2_def pq k_def)
  next
    case False
    have bp: "1 \<le> bitlen p" using p by (simp add: bitlen_alt_def)
    have bq: "0 \<le> bitlen q" by (rule bitlen_nonneg)
    have "(2::int) ^ nat (bitlen p - 1) \<le> p" using bitlen_bounds [OF p] by simp
    then have "(of_int ((2::int) ^ nat (bitlen p - 1)) :: rat) \<le> of_int p"
      by (simp only: of_int_le_iff)
    then have 1: "pow2 (bitlen p - 1) \<le> of_int p"
      using bp by (simp add: pow2_def)
    have "q < 2 ^ nat (bitlen q)" using bitlen_bounds [OF q] by simp
    then have "(of_int q :: rat) < of_int ((2::int) ^ nat (bitlen q))"
      by (simp only: of_int_less_iff)
    then have 2: "of_int q \<le> pow2 (bitlen q)"
      using bq by (simp add: pow2_def)
    have "pow2 (k - 1) = pow2 (bitlen p - 1) / pow2 (bitlen q)"
      using pow2_diff [of "bitlen p - 1" "bitlen q"] by (simp add: k_def algebra_simps)
    also have "\<dots> \<le> of_int p / of_int q"
      using 1 2 p q by (intro frac_le) simp_all
    finally have "pow2 (k - 1) \<le> \<bar>x\<bar>" using x by simp
    then show ?thesis using False by (simp add: ilog2_def pq k_def)
  qed
qed

lemma fl_err: "\<bar>fl x - x\<bar> \<le> \<bar>x\<bar> / 2 ^ 53"
proof (cases "x = 0")
  case True
  then show ?thesis by (simp add: fl_def)
next
  case False
  define u where "u = pow2 (ilog2 x - 52)"
  have u: "0 < u" by (simp add: u_def)
  have "fl x - x = (of_int (round_half_even (x / u)) - x / u) * u"
    using False u by (simp add: fl_def u_def [symmetric] Let_def field_simps)
  then have "\<bar>fl x - x\<bar> = \<bar>of_int (round_half_even (x / u)) - x / u\<bar> * u"
    using u by (simp add: abs_mult)
  also have "\<dots> \<le> 1 / 2 * u"
    using round_half_even_err [of "x / u"] u by (intro mult_right_mono) simp_all
  also have "\<dots> = pow2 (ilog2 x) / 2 ^ 53"
  proof -
    have "u = pow2 (ilog2 x) / pow2 52"
      unfolding u_def by (rule pow2_diff)
    also have "pow2 52 = 2 ^ 52"
      using pow2_nat [of 52] by simp
    finally show ?thesis by simp
  qed
  also have "\<dots> \<le> \<bar>x\<bar> / 2 ^ 53"
    using ilog2_le [OF False] by (simp add: divide_right_mono)
  finally show ?thesis .
qed

lemma fl_close:
  assumes "\<bar>x\<bar> \<le> B"
  shows "\<bar>fl x - x\<bar> \<le> B / 2 ^ 53"
proof -
  have "\<bar>x\<bar> / 2 ^ 53 \<le> B / 2 ^ 53"
    using assms by (simp add: divide_right_mono)
  then show ?thesis
    using fl_err [of x] by linarith
qed

lemma floor_rat_numeral [simp]:
  "\<lfloor>numeral a / numeral b :: rat\<rfloor> = numeral a div numeral b"
  by (metis floor_divide_of_int_eq of_int_numeral)

lemma ilog2_gt:
  assumes "x \<noteq> 0"
  shows "\<bar>x\<bar> < pow2 (ilog2 x + 1)"
proof -
  obtain p q where pq: "quotient_of \<bar>x\<bar> = (p, q)"
    by (cases "quotient_of \<bar>x\<bar>") auto
  have q: "0 < q"
    using quotient_of_denom_pos [OF pq] .
  have x: "\<bar>x\<bar> = of_int p / of_int q"
    using quotient_of_div [OF pq] .
  have p: "0 < p"
  proof -
    have "0 < \<bar>x\<bar>" using assms by simp
    then have "(0::rat) < of_int p / of_int q" using x by simp
    then show ?thesis using q by (simp add: zero_less_divide_iff)
  qed
  define k where "k = bitlen p - bitlen q"
  show ?thesis
  proof (cases "pow2 k \<le> \<bar>x\<bar>")
    case False
    then show ?thesis by (simp add: ilog2_def pq k_def)
  next
    case True
    have bp: "0 \<le> bitlen p" by (rule bitlen_nonneg)
    have bq: "1 \<le> bitlen q" using q by (simp add: bitlen_alt_def)
    have "p < 2 ^ nat (bitlen p)" using bitlen_bounds [OF p] by simp
    then have "(of_int p :: rat) < of_int ((2::int) ^ nat (bitlen p))"
      by (simp only: of_int_less_iff)
    then have 1: "of_int p < pow2 (bitlen p)"
      using bp by (simp add: pow2_def)
    have "(2::int) ^ nat (bitlen q - 1) \<le> q" using bitlen_bounds [OF q] by simp
    then have "(of_int ((2::int) ^ nat (bitlen q - 1)) :: rat) \<le> of_int q"
      by (simp only: of_int_le_iff)
    then have 2: "pow2 (bitlen q - 1) \<le> of_int q"
      using bq by (simp add: pow2_def)
    have "of_int p / of_int q < pow2 (bitlen p) / pow2 (bitlen q - 1)"
      using 1 2 p q by (intro frac_less) simp_all
    also have "\<dots> = pow2 (k + 1)"
      using pow2_diff [of "bitlen p" "bitlen q - 1"] by (simp add: k_def algebra_simps)
    finally have "\<bar>x\<bar> < pow2 (k + 1)" using x by simp
    then show ?thesis using True by (simp add: ilog2_def pq k_def)
  qed
qed

lemma pow2_less_iff: "pow2 a < pow2 b \<longleftrightarrow> a < b"
proof
  assume "a < b"
  then show "pow2 a < pow2 b"
    unfolding pow2_powi by (intro power_int_strict_increasing) simp_all
next
  assume l: "pow2 a < pow2 b"
  show "a < b"
  proof (rule ccontr)
    assume "\<not> a < b"
    then have "b \<le> a" by simp
    then have "pow2 b \<le> pow2 a"
      unfolding pow2_powi by (intro power_int_increasing) simp_all
    then show False using l by simp
  qed
qed

lemma ilog2_unique:
  assumes "pow2 e \<le> \<bar>x\<bar>" and "\<bar>x\<bar> < pow2 (e + 1)"
  shows "ilog2 x = e"
proof -
  have "0 < \<bar>x\<bar>"
    using assms(1) pow2_pos [of e] by linarith
  then have "x \<noteq> 0"
    by simp
  then have "pow2 (ilog2 x) \<le> \<bar>x\<bar>" "\<bar>x\<bar> < pow2 (ilog2 x + 1)"
    by (simp_all add: ilog2_le ilog2_gt)
  then have "pow2 (ilog2 x) < pow2 (e + 1)" "pow2 e < pow2 (ilog2 x + 1)"
    using assms by linarith+
  then show ?thesis
    by (simp add: pow2_less_iff)
qed

lemma fl_eval:
  assumes "pow2 e \<le> \<bar>x\<bar>" and "\<bar>x\<bar> < pow2 (e + 1)"
  shows "fl x = of_int (round_half_even (x / pow2 (e - 52))) * pow2 (e - 52)"
proof -
  have "0 < \<bar>x\<bar>"
    using assms(1) pow2_pos [of e] by linarith
  then have "x \<noteq> 0"
    by simp
  then show ?thesis
    by (simp add: fl_def ilog2_unique [OF assms] Let_def)
qed

lemma fl_0 [simp]: "fl 0 = 0"
  by (simp add: fl_def)

lemma roundoff_small: "0 \<le> unit_roundoff" "4096 * unit_roundoff \<le> 1 / 2 ^ 41"
  "4096 * unit_roundoff \<le> 1"
  by (simp_all add: unit_roundoff_def)

lemma fl_near:
  assumes "\<bar>x\<bar> \<le> B"
  shows "\<bar>fl x - x\<bar> \<le> B * unit_roundoff"
  using fl_close [OF assms] by (simp add: unit_roundoff_def)

lemma scale_close:
  fixes s x y d :: rat
  assumes "0 \<le> s" "s \<le> 255" "\<bar>x - y\<bar> \<le> d"
  shows "\<bar>s * x - s * y\<bar> \<le> 255 * d"
proof -
  have "\<bar>s * x - s * y\<bar> = s * \<bar>x - y\<bar>"
    using assms(1) by (simp add: abs_mult right_diff_distrib [symmetric])
  also have "\<dots> \<le> 255 * d"
    using assms by (intro mult_mono) simp_all
  finally show ?thesis .
qed

lemma scale_bound:
  fixes s a :: rat
  assumes "0 \<le> s" "s \<le> 255" "\<bar>a\<bar> \<le> 2"
  shows "\<bar>s * a\<bar> \<le> 510"
proof -
  have "\<bar>s * a\<bar> = s * \<bar>a\<bar>"
    using assms(1) by (simp add: abs_mult)
  also have "\<dots> \<le> 255 * 2"
    using assms by (intro mult_mono) simp_all
  finally show ?thesis by simp
qed

lemma lerp_err:
  fixes s e q :: rat
  assumes q: "0 \<le> q" "q \<le> 1" and s: "0 \<le> s" "s \<le> 255" and e: "0 \<le> e" "e \<le> 255"
  shows "\<bar>fadd (fmul s (fsub 1 (fl q))) (fmul e (fl q)) - (s * (1 - q) + e * q)\<bar> \<le> 4096 * unit_roundoff"
proof -
  define p where "p = fl q"
  define a where "a = fl (1 - p)"
  define b where "b = fl (s * a)"
  define c where "c = fl (e * p)"
  note u = roundoff_small
  have p: "\<bar>p - q\<bar> \<le> 1 * unit_roundoff"
    unfolding p_def using q by (intro fl_near) simp
  have p2: "\<bar>p\<bar> \<le> 2" "\<bar>1 - p\<bar> \<le> 2"
    using p q u by linarith+
  have "\<bar>a - (1 - p)\<bar> \<le> 2 * unit_roundoff"
    unfolding a_def using p2 by (intro fl_near)
  then have a: "\<bar>a - (1 - q)\<bar> \<le> 3 * unit_roundoff"
    using p by linarith
  have a2: "\<bar>a\<bar> \<le> 2"
    using a q u by linarith
  have "\<bar>b - s * a\<bar> \<le> 510 * unit_roundoff"
    unfolding b_def using scale_bound [OF s a2] by (intro fl_near)
  moreover have "\<bar>s * a - s * (1 - q)\<bar> \<le> 255 * (3 * unit_roundoff)"
    using s a by (rule scale_close)
  ultimately have b: "\<bar>b - s * (1 - q)\<bar> \<le> 1275 * unit_roundoff"
    by linarith
  have "\<bar>c - e * p\<bar> \<le> 510 * unit_roundoff"
    unfolding c_def using scale_bound [OF e p2(1)] by (intro fl_near)
  moreover have "\<bar>e * p - e * q\<bar> \<le> 255 * (1 * unit_roundoff)"
    using e p by (rule scale_close)
  ultimately have c: "\<bar>c - e * q\<bar> \<le> 765 * unit_roundoff"
    by linarith
  have "s * (1 - q) \<le> 255 * 1" "e * q \<le> 255 * 1"
    using s e q by (intro mult_mono; simp)+
  then have sq: "0 \<le> s * (1 - q)" "s * (1 - q) \<le> 255"
    and eq: "0 \<le> e * q" "e * q \<le> 255"
    using s e q by simp_all
  have "\<bar>b + c\<bar> \<le> 512"
    using b c sq eq u by linarith
  then have "\<bar>fl (b + c) - (b + c)\<bar> \<le> 512 * unit_roundoff"
    by (intro fl_near)
  then have "\<bar>fl (b + c) - (s * (1 - q) + e * q)\<bar> \<le> 4096 * unit_roundoff"
    using b c by linarith
  then show ?thesis
    by (simp add: fadd_def fmul_def fsub_def p_def a_def b_def c_def)
qed

lemma fade_err:
  fixes q k :: rat
  assumes q: "0 \<le> q" "q \<le> 1" and k: "0 \<le> k" "k \<le> 1"
  shows "\<bar>fmul 255 (fsub 1 (fmul (fl q) (fl k))) - 255 * (1 - q * k)\<bar> \<le> 4096 * unit_roundoff"
proof -
  define p where "p = fl q"
  define j where "j = fl k"
  define m where "m = fl (p * j)"
  define n where "n = fl (1 - m)"
  note u = roundoff_small
  have p: "\<bar>p - q\<bar> \<le> 1 * unit_roundoff"
    unfolding p_def using q by (intro fl_near) simp
  have j: "\<bar>j - k\<bar> \<le> 1 * unit_roundoff"
    unfolding j_def using k by (intro fl_near) simp
  have p2: "\<bar>p\<bar> \<le> 2" and j2: "\<bar>j\<bar> \<le> 2"
    using p q j k u by linarith+
  have "\<bar>p * j\<bar> \<le> 2 * 2"
    unfolding abs_mult using p2 j2 by (intro mult_mono) simp_all
  then have "\<bar>m - p * j\<bar> \<le> 4 * unit_roundoff"
    unfolding m_def by (intro fl_near) simp
  moreover have "\<bar>p * j - q * k\<bar> \<le> 4 * unit_roundoff"
  proof -
    have "p * j - q * k = (p - q) * j + q * (j - k)"
      by (simp add: algebra_simps)
    moreover have "\<bar>(p - q) * j\<bar> \<le> 1 * unit_roundoff * 2"
      unfolding abs_mult using p j2 u by (intro mult_mono) simp_all
    moreover have "\<bar>q * (j - k)\<bar> \<le> 1 * (1 * unit_roundoff)"
      unfolding abs_mult using q j u by (intro mult_mono) simp_all
    ultimately show ?thesis
      by linarith
  qed
  ultimately have m: "\<bar>m - q * k\<bar> \<le> 8 * unit_roundoff"
    by linarith
  have qk: "0 \<le> q * k" "q * k \<le> 1"
    using q k by (simp_all add: mult_le_one)
  have "\<bar>1 - m\<bar> \<le> 2"
    using m qk u by linarith
  then have "\<bar>n - (1 - m)\<bar> \<le> 2 * unit_roundoff"
    unfolding n_def by (intro fl_near)
  then have n: "\<bar>n - (1 - q * k)\<bar> \<le> 10 * unit_roundoff"
    using m by linarith
  have n2: "\<bar>n\<bar> \<le> 2"
    using n qk u by linarith
  have "\<bar>255 * n\<bar> \<le> 510"
    using n2 by simp
  then have "\<bar>fl (255 * n) - 255 * n\<bar> \<le> 510 * unit_roundoff"
    by (intro fl_near)
  moreover have "\<bar>255 * n - 255 * (1 - q * k)\<bar> \<le> 255 * (10 * unit_roundoff)"
    using n by (intro scale_close) simp_all
  ultimately have "\<bar>fl (255 * n) - 255 * (1 - q * k)\<bar> \<le> 4096 * unit_roundoff"
    by linarith
  then show ?thesis
    by (simp add: fmul_def fsub_def p_def j_def m_def n_def)
qed

lemma trunc_close:
  fixes d v :: rat and n D :: int
  assumes D: "0 < D" "D < 2 ^ 41" and v: "v = of_int n / of_int D" and v1: "1 \<le> v"
    and d: "\<bar>d - v\<bar> \<le> 4096 * unit_roundoff"
  shows "py_int d = \<lfloor>v\<rfloor> \<or> (py_int d = \<lfloor>v\<rfloor> - 1 \<and> of_int \<lfloor>v\<rfloor> = v)"
proof -
  define m where "m = n div D"
  define r where "r = n mod D"
  have m: "\<lfloor>v\<rfloor> = m"
    unfolding v m_def by (simp add: floor_divide_of_int_eq)
  have n: "n = m * D + r" and r: "0 \<le> r" "r < D"
    using D by (simp_all add: m_def r_def)
  have Dp: "(0::rat) < of_int D"
    using D(1) by simp
  have vr: "v = of_int m + of_int r / of_int D"
    unfolding v n using Dp by (simp add: field_simps)
  have "(of_int D :: rat) < of_int (2 ^ 41)"
    using D(2) by (simp only: of_int_less_iff)
  then have "(of_int D :: rat) < 2 ^ 41"
    by simp
  then have "1 / 2 ^ 41 < 1 / (of_int D :: rat)"
    using Dp by (simp add: field_simps)
  then have small: "4096 * unit_roundoff < 1 / (of_int D :: rat)"
    using roundoff_small(2) by linarith
  have "(1::rat) \<le> of_int D"
    using D(1) by simp
  then have D1: "1 / (of_int D :: rat) \<le> 1"
    using Dp by (simp add: field_simps)
  have dpos: "0 \<le> d"
    using d v1 small D1 by linarith
  show ?thesis
  proof (cases "r = 0")
    case True
    then have vm: "v = of_int m" using vr by simp
    have m1: "(of_int (m - 1) :: rat) = of_int m - 1"
      by simp
    have bounds: "of_int m - 1 \<le> d" "d < of_int m + 1"
      using d small D1 unfolding vm by linarith+
    have "\<lfloor>d\<rfloor> = m - 1 \<or> \<lfloor>d\<rfloor> = m"
    proof (cases "d < of_int m")
      case True
      then have "\<lfloor>d\<rfloor> = m - 1"
        using bounds(1) by (intro floor_unique) (simp_all add: m1)
      then show ?thesis by simp
    next
      case False
      then have "\<lfloor>d\<rfloor> = m"
        using bounds(2) by (intro floor_unique) simp_all
      then show ?thesis by simp
    qed
    then show ?thesis
      using dpos vm m by (auto simp: py_int_def)
  next
    case False
    then have "1 \<le> r" "r + 1 \<le> D" using r by simp_all
    then have "(of_int 1 :: rat) \<le> of_int r" "(of_int (r + 1) :: rat) \<le> of_int D"
      by (simp_all only: of_int_le_iff)
    then have r1: "(1::rat) \<le> of_int r" "(of_int r :: rat) + 1 \<le> of_int D"
      by simp_all
    have "1 / of_int D \<le> of_int r / (of_int D :: rat)"
      using r1(1) Dp by (simp add: divide_right_mono)
    moreover have "of_int r / (of_int D :: rat) \<le> 1 - 1 / of_int D"
    proof -
      have "of_int r / (of_int D :: rat) \<le> (of_int D - 1) / of_int D"
        using r1(2) Dp by (intro divide_right_mono) simp_all
      also have "\<dots> = 1 - 1 / of_int D"
        using Dp by (simp add: field_simps)
      finally show ?thesis .
    qed
    ultimately have "of_int m \<le> d" "d < of_int m + 1"
      using d small unfolding vr by linarith+
    then have "\<lfloor>d\<rfloor> = m"
      by (intro floor_unique)
    then show ?thesis
      using dpos m by (simp add: py_int_def)
  qed
qed

lemma py_int_nonneg: "0 \<le> v \<Longrightarrow> py_int v = \<lfloor>v\<rfloor>"
  by (simp add: py_int_def)

lemma lerp_channel:
  fixes s e :: int
  assumes sz: "0 < sz" "sz < 2 ^ 31" and y: "0 \<le> y" "y < sz"
    and s: "1 \<le> s" "s \<le> 255" and e: "1 \<le> e" "e \<le> 255"
  shows "float_trunc
     (py_int (fadd (fmul (of_int s) (fsub 1 (fdiv (of_int y) (of_int sz))))
                   (fmul (of_int e) (fdiv (of_int y) (of_int sz)))))
     (spec_channel (of_int s) (of_int e) sz y)"
proof -
  define q :: rat where "q = of_int y / of_int sz"
  define v where "v = spec_channel (of_int s) (of_int e) sz y"
  have zp: "(0::rat) < of_int sz"
    using sz(1) by simp
  have q: "0 \<le> q" "q \<le> 1"
    using y zp by (simp_all add: q_def)
  have v: "v = of_int s * (1 - q) + of_int e * q"
    by (simp add: v_def spec_channel_def q_def)
  have sr: "(0::rat) \<le> of_int s" "(of_int s :: rat) \<le> 255" "(1::rat) \<le> of_int s"
    and er: "(0::rat) \<le> of_int e" "(of_int e :: rat) \<le> 255" "(1::rat) \<le> of_int e"
    using s e by simp_all
  have d: "\<bar>fadd (fmul (of_int s) (fsub 1 (fl q))) (fmul (of_int e) (fl q)) - v\<bar>
      \<le> 4096 * unit_roundoff"
    unfolding v by (rule lerp_err [OF q sr(1,2) er(1,2)])
  have "1 * (1 - q) + 1 * q \<le> of_int s * (1 - q) + of_int e * q"
    using sr(3) er(3) q by (intro add_mono mult_right_mono) simp_all
  then have v1: "1 \<le> v"
    by (simp add: v)
  have vn: "v = of_int (s * (sz - y) + e * y) / of_int sz"
    using zp by (simp add: v q_def field_simps)
  have D: "sz < 2 ^ 41"
    using sz(2) by simp
  have "py_int (fadd (fmul (of_int s) (fsub 1 (fl q))) (fmul (of_int e) (fl q))) = \<lfloor>v\<rfloor> \<or>
    (py_int (fadd (fmul (of_int s) (fsub 1 (fl q))) (fmul (of_int e) (fl q))) = \<lfloor>v\<rfloor> - 1 \<and>
     of_int \<lfloor>v\<rfloor> = v)"
    by (rule trunc_close [OF sz(1) D vn v1 d])
  moreover have "py_int v = \<lfloor>v\<rfloor>"
    using v1 by (simp add: py_int_nonneg)
  ultimately show ?thesis
    unfolding float_trunc_def v_def [symmetric] by (simp add: fdiv_def q_def)
qed

lemma fade_channel:
  fixes k :: int
  assumes sz: "0 < sz" "sz < 2 ^ 31" and y: "0 \<le> y" "y < sz" and k: "2 \<le> k" "k \<le> 100"
  shows "float_trunc
     (py_int (fmul 255 (fsub 1 (fmul (fdiv (of_int y) (of_int sz)) (fl (1 / of_int k))))))
     (spec_channel 255 (255 * (1 - 1 / of_int k)) sz y)"
proof -
  define q :: rat where "q = of_int y / of_int sz"
  define v where "v = spec_channel 255 (255 * (1 - 1 / of_int k)) sz y"
  have zp: "(0::rat) < of_int sz" and kp: "(0::rat) < of_int k" "(2::rat) \<le> of_int k"
    using sz(1) k by simp_all
  have q: "0 \<le> q" "q \<le> 1"
    using y zp by (simp_all add: q_def)
  have kk: "(0::rat) \<le> 1 / of_int k" "1 / (of_int k :: rat) \<le> 1"
    using kp by (simp_all add: field_simps)
  have v: "v = 255 * (1 - q * (1 / of_int k))"
    by (simp add: v_def spec_channel_def q_def algebra_simps)
  have d: "\<bar>fmul 255 (fsub 1 (fmul (fl q) (fl (1 / of_int k)))) - v\<bar> \<le> 4096 * unit_roundoff"
    unfolding v by (rule fade_err [OF q kk])
  have "q * (1 / of_int k) \<le> 1 * (1 / 2)"
    using q kp by (intro mult_mono) (simp_all add: field_simps)
  then have v1: "1 \<le> v"
    by (simp add: v)
  have vn: "v = of_int (255 * k * sz - 255 * y) / of_int (k * sz)"
    using zp kp by (simp add: v q_def field_simps)
  have "k * sz \<le> 100 * sz"
    using k sz by simp
  moreover have "100 * sz < 2 ^ 41"
    using sz(2) by simp
  moreover have "0 < k * sz"
    using sz k by simp
  ultimately have D: "0 < k * sz" "k * sz < 2 ^ 41"
    by linarith+
  have "py_int (fmul 255 (fsub 1 (fmul (fl q) (fl (1 / of_int k))))) = \<lfloor>v\<rfloor> \<or>
    (py_int (fmul 255 (fsub 1 (fmul (fl q) (fl (1 / of_int k))))) = \<lfloor>v\<rfloor> - 1 \<and>
     of_int \<lfloor>v\<rfloor> = v)"
    by (rule trunc_close [OF D vn v1 d])
  moreover have "py_int v = \<lfloor>v\<rfloor>"
    using v1 by (simp add: py_int_nonneg)
  ultimately show ?thesis
    unfolding float_trunc_def v_def [symmetric] by (simp add: fdiv_def q_def)
qed

lemma gradient_channels:
  assumes "0 < sz" and "sz < 2 ^ 31" and "0 \<le> y" and "y < sz"
  shows "list_all2 float_trunc (gradient_icons sz y)
           (map (\<lambda>(start, stop). spec_channel start stop sz y) ends_icons) \<and>
         list_all2 float_trunc (gradient_solid sz y)
           (map (\<lambda>(start, stop). spec_channel start stop sz y) ends_solid) \<and>
         list_all2 float_trunc (gradient_beautiful sz y)
           (map (\<lambda>(start, stop). spec_channel start stop sz y) ends_beautiful)"
proof -
  note l = lerp_channel [OF assms]
  have i: "list_all2 float_trunc (gradient_icons sz y)
           (map (\<lambda>(start, stop). spec_channel start stop sz y) ends_icons)"
    using l [of 52 34] l [of 199 139] l [of 89 34]
    by (simp add: gradient_icons_def ends_icons_def Let_def)
  have s: "list_all2 float_trunc (gradient_solid sz y)
           (map (\<lambda>(start, stop). spec_channel start stop sz y) ends_solid)"
    using l [of 100 50] l [of 150 100] l [of 200 150]
    by (simp add: gradient_solid_def ends_solid_def Let_def)
  have b: "list_all2 float_trunc (gradient_beautiful sz y)
           (map (\<lambda>(start, stop). spec_channel start stop sz y) ends_beautiful)"
    using fade_channel [OF assms, of 10] fade_channel [OF assms, of 20]
    by (simp add: gradient_beautiful_def ends_beautiful_def Let_def)
  show ?thesis
    using i s b by simp
qed


section \<open>The gradient at some rows, bit for bit\<close>

lemma gradient_icons_20_1: "gradient_icons 20 1 = [51, 195, 86]"
proof -
  have s1: "fdiv (of_int 1) (of_int 20) = (3602879701896397 / 72057594037927936)"
    by (simp add: fdiv_def fl_eval [of "-5"] pow2_def round_half_even_def Let_def)
  have s2: "fsub 1 (3602879701896397 / 72057594037927936) = (4278419646001971 / 4503599627370496)"
    by (simp add: fsub_def fl_eval [of "-1"] pow2_def round_half_even_def Let_def)
  have s3: "fmul 52 (4278419646001971 / 4503599627370496) = (6952431924753203 / 140737488355328)"
    by (simp add: fmul_def fl_eval [of "5"] pow2_def round_half_even_def Let_def)
  have s4: "fmul 34 (3602879701896397 / 72057594037927936) = (1914029841632461 / 1125899906842624)"
    by (simp add: fmul_def fl_eval [of "0"] pow2_def round_half_even_def Let_def)
  have s5: "fadd (6952431924753203 / 140737488355328) (1914029841632461 / 1125899906842624) = (7191685654957261 / 140737488355328)"
    by (simp add: fadd_def fl_eval [of "5"] pow2_def round_half_even_def Let_def)
  have s6: "fmul 199 (4278419646001971 / 4503599627370496) = (6651605543393689 / 35184372088832)"
    by (simp add: fmul_def fl_eval [of "7"] pow2_def round_half_even_def Let_def)
  have s7: "fmul 139 (3602879701896397 / 72057594037927936) = (7825004352556237 / 1125899906842624)"
    by (simp add: fmul_def fl_eval [of "2"] pow2_def round_half_even_def Let_def)
  have s8: "fadd (6651605543393689 / 35184372088832) (7825004352556237 / 1125899906842624) = (6896136929411071 / 35184372088832)"
    by (simp add: fadd_def fl_eval [of "7"] pow2_def round_half_even_def Let_def)
  have s9: "fmul 89 (4278419646001971 / 4503599627370496) = (5949677320221491 / 70368744177664)"
    by (simp add: fmul_def fl_eval [of "6"] pow2_def round_half_even_def Let_def)
  have s10: "fadd (5949677320221491 / 70368744177664) (1914029841632461 / 1125899906842624) = (345 / 4)"
    by (simp add: fadd_def fl_eval [of "6"] pow2_def round_half_even_def Let_def)
  show ?thesis
    unfolding gradient_icons_def Let_def s1 s2 s3 s4 s5 s6 s7 s8 s9 s10 by (simp add: py_int_def)
qed

lemma gradient_icons_20_19: "gradient_icons 20 19 = [34, 142, 36]"
proof -
  have s1: "fdiv (of_int 19) (of_int 20) = (4278419646001971 / 4503599627370496)"
    by (simp add: fdiv_def fl_eval [of "-1"] pow2_def round_half_even_def Let_def)
  have s2: "fsub 1 (4278419646001971 / 4503599627370496) = (225179981368525 / 4503599627370496)"
    by (simp add: fsub_def fl_eval [of "-5"] pow2_def round_half_even_def Let_def)
  have s3: "fmul 52 (225179981368525 / 4503599627370496) = (2927339757790825 / 1125899906842624)"
    by (simp add: fmul_def fl_eval [of "1"] pow2_def round_half_even_def Let_def)
  have s4: "fmul 34 (4278419646001971 / 4503599627370496) = (2272910436938547 / 70368744177664)"
    by (simp add: fmul_def fl_eval [of "5"] pow2_def round_half_even_def Let_def)
  have s5: "fadd (2927339757790825 / 1125899906842624) (2272910436938547 / 70368744177664) = (4911738343600947 / 140737488355328)"
    by (simp add: fadd_def fl_eval [of "5"] pow2_def round_half_even_def Let_def)
  have s6: "fmul 199 (225179981368525 / 4503599627370496) = (5601352036542059 / 562949953421312)"
    by (simp add: fmul_def fl_eval [of "3"] pow2_def round_half_even_def Let_def)
  have s7: "fmul 139 (4278419646001971 / 4503599627370496) = (4646096334330265 / 35184372088832)"
    by (simp add: fmul_def fl_eval [of "7"] pow2_def round_half_even_def Let_def)
  have s8: "fadd (5601352036542059 / 562949953421312) (4646096334330265 / 35184372088832) = 142"
    by (simp add: fadd_def fl_eval [of "7"] pow2_def round_half_even_def Let_def)
  have s9: "fmul 89 (225179981368525 / 4503599627370496) = (5010254585449681 / 1125899906842624)"
    by (simp add: fmul_def fl_eval [of "2"] pow2_def round_half_even_def Let_def)
  have s10: "fadd (5010254585449681 / 1125899906842624) (2272910436938547 / 70368744177664) = (147 / 4)"
    by (simp add: fadd_def fl_eval [of "5"] pow2_def round_half_even_def Let_def)
  show ?thesis
    unfolding gradient_icons_def Let_def s1 s2 s3 s4 s5 s6 s7 s8 s9 s10 by (simp add: py_int_def)
qed

lemma gradient_beautiful_20_19: "gradient_beautiful 20 19 = [230, 242, 230]"
proof -
  have s1: "fdiv (of_int 19) (of_int 20) = (4278419646001971 / 4503599627370496)"
    by (simp add: fdiv_def fl_eval [of "-1"] pow2_def round_half_even_def Let_def)
  have s2: "fl (1 / 10) = (3602879701896397 / 36028797018963968)"
    by (simp add: fl_eval [of "-4"] pow2_def round_half_even_def Let_def)
  have s3: "fmul (4278419646001971 / 4503599627370496) (3602879701896397 / 36028797018963968) = (3422735716801577 / 36028797018963968)"
    by (simp add: fmul_def fl_eval [of "-4"] pow2_def round_half_even_def Let_def)
  have s4: "fsub 1 (3422735716801577 / 36028797018963968) = (4075757662770299 / 4503599627370496)"
    by (simp add: fsub_def fl_eval [of "-1"] pow2_def round_half_even_def Let_def)
  have s5: "fmul 255 (4075757662770299 / 4503599627370496) = (8119673468800205 / 35184372088832)"
    by (simp add: fmul_def fl_eval [of "7"] pow2_def round_half_even_def Let_def)
  have s6: "fl (5 / 100) = (3602879701896397 / 72057594037927936)"
    by (simp add: fl_eval [of "-5"] pow2_def round_half_even_def Let_def)
  have s7: "fmul (4278419646001971 / 4503599627370496) (3602879701896397 / 72057594037927936) = (3422735716801577 / 72057594037927936)"
    by (simp add: fmul_def fl_eval [of "-5"] pow2_def round_half_even_def Let_def)
  have s8: "fsub 1 (3422735716801577 / 72057594037927936) = (8579357290140795 / 9007199254740992)"
    by (simp add: fsub_def fl_eval [of "-1"] pow2_def round_half_even_def Let_def)
  have s9: "fmul 255 (8579357290140795 / 9007199254740992) = (8545844175726183 / 35184372088832)"
    by (simp add: fmul_def fl_eval [of "7"] pow2_def round_half_even_def Let_def)
  show ?thesis
    unfolding gradient_beautiful_def Let_def s1 s2 s3 s4 s5 s6 s7 s8 s9 by (simp add: py_int_def)
qed
lemma gradient_beautiful_120_0: "gradient_beautiful 120 0 = [255, 255, 255]"
proof -
  have s1: "fdiv (of_int 0) (of_int 120) = 0"
    by (simp add: fdiv_def fl_def)
  have s2: "fl (1 / 10) = (3602879701896397 / 36028797018963968)"
    by (simp add: fl_eval [of "-4"] pow2_def round_half_even_def Let_def)
  have s3: "fmul 0 (3602879701896397 / 36028797018963968) = 0"
    by (simp add: fmul_def fl_def)
  have s4: "fsub 1 0 = 1"
    by (simp add: fsub_def fl_eval [of "0"] pow2_def round_half_even_def Let_def)
  have s5: "fmul 255 1 = 255"
    by (simp add: fmul_def fl_eval [of "7"] pow2_def round_half_even_def Let_def)
  have s6: "fl (5 / 100) = (3602879701896397 / 72057594037927936)"
    by (simp add: fl_eval [of "-5"] pow2_def round_half_even_def Let_def)
  have s7: "fmul 0 (3602879701896397 / 72057594037927936) = 0"
    by (simp add: fmul_def fl_def)
  show ?thesis
    unfolding gradient_beautiful_def Let_def s1 s2 s3 s4 s5 s6 s7 by (simp add: py_int_def)
qed

lemma gradient_beautiful_120_119: "gradient_beautiful 120 119 = [229, 242, 229]"
proof -
  have s1: "fdiv (of_int 119) (of_int 120) = (2233034815237871 / 2251799813685248)"
    by (simp add: fdiv_def fl_eval [of "-1"] pow2_def round_half_even_def Let_def)
  have s2: "fl (1 / 10) = (3602879701896397 / 36028797018963968)"
    by (simp add: fl_eval [of "-4"] pow2_def round_half_even_def Let_def)
  have s3: "fmul (2233034815237871 / 2251799813685248) (3602879701896397 / 36028797018963968) = (1786427852190297 / 18014398509481984)"
    by (simp add: fmul_def fl_eval [of "-4"] pow2_def round_half_even_def Let_def)
  have s4: "fsub 1 (1786427852190297 / 18014398509481984) = (2028496332161461 / 2251799813685248)"
    by (simp add: fsub_def fl_eval [of "-1"] pow2_def round_half_even_def Let_def)
  have s5: "fmul 255 (2028496332161461 / 2251799813685248) = (8082290073455821 / 35184372088832)"
    by (simp add: fmul_def fl_eval [of "7"] pow2_def round_half_even_def Let_def)
  have s6: "fl (5 / 100) = (3602879701896397 / 72057594037927936)"
    by (simp add: fl_eval [of "-5"] pow2_def round_half_even_def Let_def)
  have s7: "fmul (2233034815237871 / 2251799813685248) (3602879701896397 / 72057594037927936) = (1786427852190297 / 36028797018963968)"
    by (simp add: fmul_def fl_eval [of "-5"] pow2_def round_half_even_def Let_def)
  have s8: "fsub 1 (1786427852190297 / 36028797018963968) = (4280296145846709 / 4503599627370496)"
    by (simp add: fsub_def fl_eval [of "-1"] pow2_def round_half_even_def Let_def)
  have s9: "fmul 255 (4280296145846709 / 4503599627370496) = (8527152478053991 / 35184372088832)"
    by (simp add: fmul_def fl_eval [of "7"] pow2_def round_half_even_def Let_def)
  show ?thesis
    unfolding gradient_beautiful_def Let_def s1 s2 s3 s4 s5 s6 s7 s8 s9 by (simp add: py_int_def)
qed



section \<open>The gradient on the canvas\<close>

lemma getink_bytes:
  assumes "0 \<le> r" "r \<le> 255" "0 \<le> g" "g \<le> 255" "0 \<le> b" "b \<le> 255"
  shows "getink ModeRGB [r, g, b] = Inr (Rgb r g b)"
  using assms by simp

lemma px_lines:
  assumes "renders sz (Inr img)" and "\<forall>y. length (grad y) = 3" and "distinct ys"
  shows "\<exists>im. efold (\<lambda>y im. draw_line im 0 sz y (grad y)) ys img = Inr im \<and>
     renders sz (Inr im) \<and>
     (\<forall>p. px im p = (if inside sz sz p \<and> snd p \<in> set ys
                      then Some (projr (getink ModeRGB (grad (snd p)))) else px img p))"
  using assms(1,3)
proof (induction ys arbitrary: img)
  case Nil
  then show ?case by simp
next
  case (Cons y ys)
  have m: "mode img = ModeRGB" "width img = sz" "height img = sz"
    using Cons.prems(1) by (simp_all add: wf_rgb_def)
  obtain ink where ink: "getink ModeRGB (grad y) = Inr ink" "is_rgb ink"
    using getink_rgb [of "grad y"] assms(2) by auto
  let ?im1 = "paint img (hline_cov 0 sz y) ink"
  have s: "draw_line img 0 sz y (grad y) = Inr ?im1"
    by (simp add: draw_line_def m ink)
  have r1: "renders sz (Inr ?im1)"
    using Cons.prems(1) ink(2) by (simp add: wf_rgb_paint)
  obtain im where im: "efold (\<lambda>y im. draw_line im 0 sz y (grad y)) ys ?im1 = Inr im"
      "renders sz (Inr im)"
      "\<And>p. px im p = (if inside sz sz p \<and> snd p \<in> set ys
                      then Some (projr (getink ModeRGB (grad (snd p)))) else px ?im1 p)"
    using Cons.IH [OF r1] Cons.prems(2) by auto
  have "px im p = (if inside sz sz p \<and> snd p \<in> set (y # ys)
                      then Some (projr (getink ModeRGB (grad (snd p)))) else px img p)" for p
    using Cons.prems(2)
    by (auto simp: im(3) px_paint m hline_cov_def ink inside_def)
  then show ?case
    using im(1,2) s by simp
qed

lemma range1_set: "set (range1 n) = {0 .. n - 1}" "distinct (range1 n)"
  by (simp_all add: range1_def)

lemma gradient_image_px:
  assumes "0 \<le> sz" and "sz < 2 ^ 31" and "\<forall>y. length (grad y) = 3"
  shows "\<exists>im. ebind (Image_new ModeRGB (sz, sz) [255, 255, 255])
           (\<lambda>img. efold (\<lambda>y im. draw_line im 0 sz y (grad y)) (range1 sz) img) = Inr im \<and>
         renders sz (Inr im) \<and>
         (\<forall>p. inside sz sz p \<longrightarrow> px im p = Some (projr (getink ModeRGB (grad (snd p)))))"
proof -
  have l: "length [255, 255, 255 :: int] = 3 \<or> length [255, 255, 255 :: int] = 4"
    by simp
  obtain a where a: "Image_new ModeRGB (sz, sz) [255, 255, 255] = Inr a" "renders sz (Inr a)"
    using renders_split [OF renders_new [OF assms(1,2) l]] by blast
  obtain im where im: "efold (\<lambda>y im. draw_line im 0 sz y (grad y)) (range1 sz) a = Inr im"
      "renders sz (Inr im)"
      "\<And>p. px im p = (if inside sz sz p \<and> snd p \<in> set (range1 sz)
                      then Some (projr (getink ModeRGB (grad (snd p)))) else px a p)"
    using px_lines [where grad = grad and ys = "range1 sz", OF a(2) assms(3) range1_set(2)]
    by blast
  have "px im p = Some (projr (getink ModeRGB (grad (snd p))))" if "inside sz sz p" for p
    using that by (simp add: im(3) range1_set inside_def)
  then show ?thesis
    using a(1) im(1,2) by simp
qed

lemma sum_list_const: "sum_list (map (\<lambda>x. c) xs) = int (length xs) * (c::int)"
  by (induction xs) (simp_all add: algebra_simps)

lemma row_avg_const:
  assumes "0 < width img"
    and "\<And>x. 0 \<le> x \<Longrightarrow> x < width img \<Longrightarrow> px img (x, y) = Some (Rgb r g b)"
  shows "row_avg img y = [of_int r, of_int g, of_int b]"
proof -
  have row: "map (\<lambda>x. channels (px img (x, y))) [0 .. width img - 1]
      = map (\<lambda>x. [r, g, b]) [0 .. width img - 1]"
    using assms(2) by (intro map_cong) simp_all
  have len: "int (length [0 .. width img - 1]) = width img"
    using assms(1) by simp
  have w: "(of_int (width img) :: rat) \<noteq> 0"
    using assms(1) by simp
  show ?thesis
    unfolding row_avg_def Let_def row
    using w by (simp add: comp_def sum_list_const len del: length_upto)
qed

lemma gradient_row_avg:
  assumes "0 < sz" and "\<forall>y. length (grad y) = 3" and "0 \<le> y" "y < sz"
    and "grad y = [r, g, b]"
    and "0 \<le> r" "r \<le> 255" "0 \<le> g" "g \<le> 255" "0 \<le> b" "b \<le> 255"
    and "ebind (Image_new ModeRGB (sz, sz) [255, 255, 255])
           (\<lambda>img. efold (\<lambda>y im. draw_line im 0 sz y (grad y)) (range1 sz) img) = Inr im"
  shows "row_avg im y = [of_int r, of_int g, of_int b] \<and> height im = sz"
proof -
  have hi: "sz < 2 ^ 31"
    using assms(12) new_overflow [of sz ModeRGB "[255, 255, 255]"] by (cases "sz < 2 ^ 31") auto
  obtain im' where im: "ebind (Image_new ModeRGB (sz, sz) [255, 255, 255])
           (\<lambda>img. efold (\<lambda>y im. draw_line im 0 sz y (grad y)) (range1 sz) img) = Inr im'"
      "renders sz (Inr im')"
      "\<And>p. inside sz sz p \<Longrightarrow> px im' p = Some (projr (getink ModeRGB (grad (snd p))))"
    using gradient_image_px [of sz grad] assms(1,2) hi by auto
  have e: "im' = im"
    using im(1) assms(12) by simp
  have w: "width im = sz" "height im = sz"
    using im(2) e by simp_all
  have "px im (x, y) = Some (Rgb r g b)" if "0 \<le> x" "x < width im" for x
    using that im(3) [of "(x, y)"] assms(3-11) w e by (simp add: inside_def)
  then show ?thesis
    using row_avg_const [of im y r g b] assms(1) w by simp
qed

lemma fl_small_ints:
  "fl 1 = 1" "fl 52 = 52" "fl 199 = 199" "fl 89 = 89" "fl 100 = 100" "fl 150 = 150" "fl 200 = 200"
  by (simp_all add: fl_eval [of 0] fl_eval [of 5] fl_eval [of 6] fl_eval [of 7]
        pow2_def round_half_even_def Let_def)

lemma gradient_top:
  "gradient_icons sz 0 = [52, 199, 89]" "gradient_solid sz 0 = [100, 150, 200]"
  by (simp_all add: gradient_icons_def gradient_solid_def fdiv_def fsub_def fmul_def fadd_def
        fl_small_ints py_int_def)

lemma bottom_channel:
  fixes s e :: int
  assumes "0 < sz" and "1 \<le> e" and "e \<le> s"
    and "float_trunc c (spec_channel (of_int s) (of_int e) sz (sz - 1))"
  shows "e - 1 \<le> c \<and> c \<le> e + (s - e) div sz"
proof -
  define v where "v = spec_channel (of_int s) (of_int e) sz (sz - 1)"
  have zp: "(0::rat) < of_int sz"
    using assms(1) by simp
  have "v = of_int (e * sz + (s - e)) / of_int sz"
    using zp by (simp add: v_def spec_channel_def field_simps)
  then have "\<lfloor>v\<rfloor> = (e * sz + (s - e)) div sz"
    by (simp only: floor_divide_of_int_eq)
  also have "\<dots> = e + (s - e) div sz"
    using assms(1) by simp
  finally have f: "\<lfloor>v\<rfloor> = e + (s - e) div sz" .
  have "0 \<le> (s - e) div sz"
    using assms(1,3) by (simp add: pos_imp_zdiv_nonneg_iff)
  then have "0 \<le> \<lfloor>v\<rfloor>"
    using f assms(2) by simp
  then have "0 \<le> v"
    by (simp add: zero_le_floor)
  then have "py_int v = e + (s - e) div sz"
    using f by (simp add: py_int_def)
  then show ?thesis
    using assms(4) \<open>0 \<le> (s - e) div sz\<close> unfolding float_trunc_def v_def [symmetric] by auto
qed

lemma div_by_larger:
  fixes a k sz :: int
  assumes "0 \<le> a" and "0 < k" and "k \<le> sz"
  shows "a div sz \<le> a div k"
  using assms by (intro zdiv_mono2) simp_all

lemma near3:
  "near t [a, b, c] [x, y, z] = (\<bar>a - x\<bar> \<le> t \<and> \<bar>b - y\<bar> \<le> t \<and> \<bar>c - z\<bar> \<le> t)"
  by (simp add: near_def)

lemma rows_icons:
  assumes lo: "k \<le> sz" and k: "20 \<le> k" and hi: "sz < 2 ^ 31" and "t = max 1 (60 div k)"
  shows "rows_match 0 (of_int t) ends_icons (gradient_image_icons sz)"
proof -
  have sz: "0 < sz" "0 \<le> sz - 1" "sz - 1 < sz" "0 \<le> sz"
    using lo k by simp_all
  have len: "\<forall>y. length (gradient_icons sz y) = 3"
    by simp
  obtain im where im: "gradient_image_icons sz = Inr im"
    using gradient_image_px [where grad = "gradient_icons sz", OF sz(4) hi len]
    unfolding gradient_image_icons_def background_icons_def by blast
  note im' = im [unfolded gradient_image_icons_def background_icons_def]
  have top: "row_avg im 0 = [52, 199, 89]" and h: "height im = sz"
    using gradient_row_avg [where grad = "gradient_icons sz", OF sz(1) len _ sz(1) gradient_top(1) _ _ _ _ _ _ im']
    by simp_all
  obtain r g b where rgb: "gradient_icons sz (sz - 1) = [r, g, b]"
    by (simp add: gradient_icons_def Let_def)
  have "list_all2 float_trunc [r, g, b]
           (map (\<lambda>(start, stop). spec_channel start stop sz (sz - 1)) ends_icons)"
    using gradient_channels [OF sz(1) hi sz(2,3)] rgb by simp
  then have ft: "float_trunc r (spec_channel (of_int 52) (of_int 34) sz (sz - 1))"
    "float_trunc g (spec_channel (of_int 199) (of_int 139) sz (sz - 1))"
    "float_trunc b (spec_channel (of_int 89) (of_int 34) sz (sz - 1))"
    by (simp_all add: ends_icons_def)
  have d: "18 div sz \<le> 18 div k" "60 div sz \<le> 60 div k" "55 div sz \<le> 55 div k"
    using lo k by (intro div_by_larger; simp)+
  have dk: "18 div k \<le> 60 div k" "55 div k \<le> 60 div k"
    using k by (intro zdiv_mono1; simp)+
  have br: "33 \<le> r \<and> r \<le> 34 + 18 div sz" and bg: "138 \<le> g \<and> g \<le> 139 + 60 div sz"
    and bb: "33 \<le> b \<and> b \<le> 34 + 55 div sz"
    using bottom_channel [OF sz(1) _ _ ft(1)] bottom_channel [OF sz(1) _ _ ft(2)]
      bottom_channel [OF sz(1) _ _ ft(3)] by simp_all
  have "60 div k \<le> 60 div 20"
    using k by (intro div_by_larger) simp_all
  then have k3: "60 div k \<le> 3"
    by simp
  have bytes: "0 \<le> r" "r \<le> 255" "0 \<le> g" "g \<le> 255" "0 \<le> b" "b \<le> 255"
    using br bg bb d dk k3 by linarith+
  have bot: "row_avg im (sz - 1) = [of_int r, of_int g, of_int b]"
    using gradient_row_avg [where grad = "gradient_icons sz", OF sz(1) len sz(2,3) rgb bytes im']
    by simp
  have "\<bar>r - 34\<bar> \<le> t" "\<bar>g - 139\<bar> \<le> t" "\<bar>b - 34\<bar> \<le> t"
    using br bg bb d dk assms(4) by linarith+
  then have "\<bar>of_int (r - 34)\<bar> \<le> (of_int t :: rat)" "\<bar>of_int (g - 139)\<bar> \<le> (of_int t :: rat)"
    "\<bar>of_int (b - 34)\<bar> \<le> (of_int t :: rat)"
    by (simp_all only: of_int_abs [symmetric] of_int_le_iff)
  then show ?thesis
    by (simp add: rows_match_def im h top bot ends_icons_def near3)
qed

lemma rows_solid:
  assumes lo: "k \<le> sz" and k: "20 \<le> k" and hi: "sz < 2 ^ 31" and "t = max 1 (50 div k)"
  shows "rows_match 0 (of_int t) ends_solid (gradient_image_solid sz)"
proof -
  have sz: "0 < sz" "0 \<le> sz - 1" "sz - 1 < sz" "0 \<le> sz"
    using lo k by simp_all
  have len: "\<forall>y. length (gradient_solid sz y) = 3"
    by simp
  obtain im where im: "gradient_image_solid sz = Inr im"
    using gradient_image_px [where grad = "gradient_solid sz", OF sz(4) hi len]
    unfolding gradient_image_solid_def background_solid_def by blast
  note im' = im [unfolded gradient_image_solid_def background_solid_def]
  have top: "row_avg im 0 = [100, 150, 200]" and h: "height im = sz"
    using gradient_row_avg [where grad = "gradient_solid sz", OF sz(1) len _ sz(1) gradient_top(2) _ _ _ _ _ _ im']
    by simp_all
  obtain r g b where rgb: "gradient_solid sz (sz - 1) = [r, g, b]"
    by (simp add: gradient_solid_def Let_def)
  have "list_all2 float_trunc [r, g, b]
           (map (\<lambda>(start, stop). spec_channel start stop sz (sz - 1)) ends_solid)"
    using gradient_channels [OF sz(1) hi sz(2,3)] rgb by simp
  then have ft: "float_trunc r (spec_channel (of_int 100) (of_int 50) sz (sz - 1))"
    "float_trunc g (spec_channel (of_int 150) (of_int 100) sz (sz - 1))"
    "float_trunc b (spec_channel (of_int 200) (of_int 150) sz (sz - 1))"
    by (simp_all add: ends_solid_def)
  have d: "50 div sz \<le> 50 div k"
    using lo k by (intro div_by_larger; simp)
  have br: "49 \<le> r \<and> r \<le> 50 + 50 div sz" and bg: "99 \<le> g \<and> g \<le> 100 + 50 div sz"
    and bb: "149 \<le> b \<and> b \<le> 150 + 50 div sz"
    using bottom_channel [OF sz(1) _ _ ft(1)] bottom_channel [OF sz(1) _ _ ft(2)]
      bottom_channel [OF sz(1) _ _ ft(3)] by simp_all
  have "50 div k \<le> 50 div 20"
    using k by (intro div_by_larger) simp_all
  then have k3: "50 div k \<le> 2"
    by simp
  have bytes: "0 \<le> r" "r \<le> 255" "0 \<le> g" "g \<le> 255" "0 \<le> b" "b \<le> 255"
    using br bg bb d k3 by linarith+
  have bot: "row_avg im (sz - 1) = [of_int r, of_int g, of_int b]"
    using gradient_row_avg [where grad = "gradient_solid sz", OF sz(1) len sz(2,3) rgb bytes im']
    by simp
  have "\<bar>r - 50\<bar> \<le> t" "\<bar>g - 100\<bar> \<le> t" "\<bar>b - 150\<bar> \<le> t"
    using br bg bb d assms(4) by linarith+
  then have "\<bar>of_int (r - 50)\<bar> \<le> (of_int t :: rat)" "\<bar>of_int (g - 100)\<bar> \<le> (of_int t :: rat)"
    "\<bar>of_int (b - 150)\<bar> \<le> (of_int t :: rat)"
    by (simp_all only: of_int_abs [symmetric] of_int_le_iff)
  then show ?thesis
    by (simp add: rows_match_def im h top bot ends_solid_def near3)
qed


section \<open>Cells that later shapes leave alone\<close>

lemma keeps_Inr [simp]:
  "keeps sz p img (Inr im) = (renders sz (Inr im) \<and> px im p = px img p)"
  by (simp add: keeps_def)

lemma keeps_Inl [simp]: "\<not> keeps sz p img (Inl e)"
  by (simp add: keeps_def)

lemma keeps_ebind:
  assumes "keeps sz p img m" and "\<And>im. renders sz (Inr im) \<Longrightarrow> keeps sz p im (f im)"
  shows "keeps sz p img (ebind m f)"
proof -
  obtain a where a: "m = Inr a" "renders sz (Inr a)" "px a p = px img p"
    using assms(1) by (cases m) auto
  have "keeps sz p a (f a)"
    using assms(2) a(2) by blast
  then show ?thesis
    using a by (cases "f a") auto
qed

lemma keeps_efold:
  assumes "\<And>x im. x \<in> set xs \<Longrightarrow> renders sz (Inr im) \<Longrightarrow> keeps sz p im (f x im)"
    and "renders sz (Inr img)"
  shows "keeps sz p img (efold f xs img)"
  using assms
proof (induction xs arbitrary: img)
  case Nil
  then show ?case by simp
next
  case (Cons x xs)
  have 1: "keeps sz p img (f x img)"
    using Cons.prems by simp
  have 2: "keeps sz p im (efold f xs im)" if "renders sz (Inr im)" for im
    using Cons.IH [OF _ that] Cons.prems(1) by simp
  show ?case
    using keeps_ebind [OF 1 2] by simp
qed

lemma keeps_split:
  assumes "keeps sz p img m"
  shows "\<exists>a. m = Inr a \<and> renders sz (Inr a) \<and> px a p = px img p \<and> ebind m f = f a"
  using assms by (cases m) auto

lemma keeps_paint_op:
  assumes "renders sz (Inr img)" and "length fill = 3 \<or> length fill = 4" and "\<not> cov p"
  shows "keeps sz p img (ebind (getink (mode img) fill) (\<lambda>ink. Inr (paint img cov ink)))"
proof -
  have m: "mode img = ModeRGB" using assms(1) by (simp add: wf_rgb_def)
  obtain ink where "getink ModeRGB fill = Inr ink" "is_rgb ink"
    using getink_rgb [OF assms(2)] by blast
  then show ?thesis
    using assms(1,3) m by (simp add: wf_rgb_paint px_paint)
qed

lemma keeps_polygon:
  assumes "renders sz (Inr img)" and "length fill = 3 \<or> length fill = 4"
    and "2 \<le> length pts" and "\<not> polygon_cov R pts p"
  shows "keeps sz p img (draw_polygon R img pts fill)"
  using assms(3) keeps_paint_op [where cov = "polygon_cov R pts" and p = p, OF assms(1,2,4)]
  by (auto simp: draw_polygon_def)

lemma keeps_ellipse:
  assumes "renders sz (Inr img)" and "length fill = 3 \<or> length fill = 4"
    and "x0 \<le> x1" "y0 \<le> y1" and "\<not> ellipse_cov R (x0, y0, x1, y1) p"
  shows "keeps sz p img (draw_ellipse R img (x0, y0, x1, y1) fill)"
  using assms(3,4)
    keeps_paint_op [where cov = "ellipse_cov R (x0, y0, x1, y1)" and p = p, OF assms(1,2,5)]
  by (auto simp: draw_ellipse_def)

lemma keeps_rectangle:
  assumes "renders sz (Inr img)" and "length fill = 3 \<or> length fill = 4"
    and "x0 \<le> x1" "y0 \<le> y1" and "\<not> rectangle_cov (x0, y0, x1, y1) p"
  shows "keeps sz p img (draw_rectangle R img (x0, y0, x1, y1) fill)"
  using assms(3,4)
    keeps_paint_op [where cov = "rectangle_cov (x0, y0, x1, y1)" and p = p, OF assms(1,2,5)]
  by (auto simp: draw_rectangle_def)

text \<open>Geometry of the even-odd rule: a crossed edge has a vertex on either side.\<close>

lemma set_edges: "e \<in> set (edges ps) \<Longrightarrow> fst e \<in> set ps \<and> snd e \<in> set ps"
  unfolding edges_def
  by (metis prod.collapse set_rotate1 set_zip_leftD set_zip_rightD)

lemma crossing_bounds:
  assumes "crossing (x, y) ((x1, y1), (x2, y2))"
  shows "(real_of_int x < x1 \<or> real_of_int x < x2) \<and>
         (y1 \<le> real_of_int y \<or> y2 \<le> real_of_int y) \<and>
         (real_of_int y < y1 \<or> real_of_int y < y2)"
proof -
  define l where "l = (real_of_int y - y1) / (y2 - y1)"
  have c: "(y1 \<le> real_of_int y \<and> real_of_int y < y2) \<or> (y2 \<le> real_of_int y \<and> real_of_int y < y1)"
    and x: "real_of_int x < x1 + (real_of_int y - y1) * (x2 - x1) / (y2 - y1)"
    using assms by (simp_all add: crossing_def Let_def)
  have l: "0 \<le> l" "l \<le> 1"
    using c by (auto simp: l_def field_simps)
  have xl: "real_of_int x < x1 + l * (x2 - x1)"
    using x by (simp add: l_def)
  have "x1 + l * (x2 - x1) \<le> max x1 x2"
  proof (cases "x1 \<le> x2")
    case True
    then have "l * (x2 - x1) \<le> 1 * (x2 - x1)"
      using l by (intro mult_right_mono) simp_all
    then show ?thesis using True by simp
  next
    case False
    then have "l * (x2 - x1) \<le> 0"
      using l by (simp add: mult_nonneg_nonpos)
    then show ?thesis using False by simp
  qed
  then have "real_of_int x < x1 \<or> real_of_int x < x2"
    using xl by linarith
  then show ?thesis
    using c by auto
qed

lemma polygon_outside:
  assumes "(\<forall>v\<in>set pts. fst v \<le> real_of_int x) \<or>
           (\<forall>v\<in>set pts. real_of_int y < snd v) \<or>
           (\<forall>v\<in>set pts. snd v \<le> real_of_int y)"
  shows "\<not> geom_polygon pts (x, y)"
proof
  assume "geom_polygon pts (x, y)"
  then have "filter (crossing (x, y)) (edges pts) \<noteq> []"
    by (auto simp: geom_polygon_def)
  then obtain e where e: "e \<in> set (edges pts)" "crossing (x, y) e"
    by (metis filter_False)
  obtain x1 y1 x2 y2 where ee: "e = ((x1, y1), (x2, y2))"
    by (metis prod.collapse)
  have v: "(x1, y1) \<in> set pts" "(x2, y2) \<in> set pts"
    using set_edges [OF e(1)] by (simp_all add: ee)
  have b: "(real_of_int x < x1 \<or> real_of_int x < x2)"
      "(y1 \<le> real_of_int y \<or> y2 \<le> real_of_int y)"
      "(real_of_int y < y1 \<or> real_of_int y < y2)"
    using crossing_bounds [OF e(2) [unfolded ee]] by simp_all
  from assms show False
  proof (elim disjE)
    assume "\<forall>v\<in>set pts. fst v \<le> real_of_int x"
    then have "x1 \<le> real_of_int x" "x2 \<le> real_of_int x"
      using v by force+
    then show False using b(1) by linarith
  next
    assume "\<forall>v\<in>set pts. real_of_int y < snd v"
    then have "real_of_int y < y1" "real_of_int y < y2"
      using v by force+
    then show False using b(2) by linarith
  next
    assume "\<forall>v\<in>set pts. snd v \<le> real_of_int y"
    then have "y1 \<le> real_of_int y" "y2 \<le> real_of_int y"
      using v by force+
    then show False using b(3) by linarith
  qed
qed

lemma ellipse_outside:
  assumes "real_of_int x < x0 \<or> x1 < real_of_int x \<or> real_of_int y < y0 \<or> y1 < real_of_int y"
  shows "\<not> geom_ellipse (x0, y0, x1, y1) (x, y)"
  using assms by (auto simp: geom_ellipse_def Let_def)

lemma heart_x_bound: "\<bar>heart_x t\<bar> \<le> 16"
proof -
  have "\<bar>sin t\<bar> ^ 3 \<le> 1"
    by (intro power_le_one) simp_all
  then show ?thesis
    by (simp add: heart_x_def abs_mult power_abs)
qed

lemma heart_y_bound: "\<bar>heart_y t\<bar> \<le> 21"
proof -
  have "\<bar>cos t\<bar> \<le> 1" "\<bar>cos (2 * t)\<bar> \<le> 1" "\<bar>cos (3 * t)\<bar> \<le> 1" "\<bar>cos (4 * t)\<bar> \<le> 1"
    by simp_all
  then show ?thesis
    unfolding heart_y_def by linarith
qed

lemma scaled_bound:
  fixes a s B :: real
  assumes "\<bar>a\<bar> \<le> B" and "0 \<le> s"
  shows "\<bar>a * s\<bar> \<le> B * s"
  using assms by (simp add: abs_mult mult_right_mono)

lemma heart_icons_vertex:
  assumes "v \<in> set (heart_points_icons sz)" and "0 \<le> sz"
  shows "\<bar>fst v - real_of_int (sz div 2)\<bar> \<le> 16 * (real_of_int (sz div 3) / 32) \<and>
         \<bar>snd v - real_of_int (sz div 2)\<bar> \<le> 21 * (real_of_int (sz div 3) / 32)"
proof -
  have s: "0 \<le> real_of_int (sz div 3) / 32"
    using assms(2) by simp
  obtain t where v: "v = (real_of_int (sz div 2) + heart_x t * real_of_int (sz div 3) / 32,
                          real_of_int (sz div 2) + heart_y t * real_of_int (sz div 3) / 32)"
    using assms(1) by (auto simp: heart_points_icons_def Let_def)
  show ?thesis
    using scaled_bound [OF heart_x_bound s, of t] scaled_bound [OF heart_y_bound s, of t]
    by (simp add: v)
qed

lemma heart_beautiful_vertex:
  assumes "v \<in> set (heart_points_beautiful sz)" and "0 \<le> sz"
  shows "\<bar>fst v - real_of_int (sz div 2)\<bar> \<le> 16 * (real_of_int (sz div 3) / 20) \<and>
         \<bar>snd v - real_of_int (sz div 2)\<bar> \<le> 21 * (real_of_int (sz div 3) / 20)"
proof -
  have s: "0 \<le> real_of_int (sz div 3) / 20"
    using assms(2) by simp
  obtain t where v: "v = (real_of_int (sz div 2) + heart_x t * (real_of_int (sz div 3) / 20),
                          real_of_int (sz div 2) + heart_y t * (real_of_int (sz div 3) / 20))"
    using assms(1) by (auto simp: heart_points_beautiful_def Let_def)
  show ?thesis
    using scaled_bound [OF heart_x_bound s, of t] scaled_bound [OF heart_y_bound s, of t]
    by (simp add: v)
qed

lemma polygon_box_outside:
  assumes "\<forall>v\<in>set pts. in_box x0 y0 x1 y1 v"
    and "x1 \<le> real_of_int x \<or> real_of_int y < y0 \<or> y1 \<le> real_of_int y"
  shows "\<not> geom_polygon pts (x, y)"
proof (rule polygon_outside)
  from assms(2) show "(\<forall>v\<in>set pts. fst v \<le> real_of_int x) \<or>
           (\<forall>v\<in>set pts. real_of_int y < snd v) \<or>
           (\<forall>v\<in>set pts. snd v \<le> real_of_int y)"
  proof (elim disjE)
    assume "x1 \<le> real_of_int x"
    then have "\<forall>v\<in>set pts. fst v \<le> real_of_int x"
      using assms(1) by (fastforce simp: in_box_def)
    then show ?thesis by blast
  next
    assume "real_of_int y < y0"
    then have "\<forall>v\<in>set pts. real_of_int y < snd v"
      using assms(1) by (fastforce simp: in_box_def)
    then show ?thesis by blast
  next
    assume "y1 \<le> real_of_int y"
    then have "\<forall>v\<in>set pts. snd v \<le> real_of_int y"
      using assms(1) by (fastforce simp: in_box_def)
    then show ?thesis by blast
  qed
qed

lemma heart_icons_box:
  assumes "0 \<le> sz"
  shows "\<forall>v\<in>set (heart_points_icons sz).
     in_box (real_of_int (sz div 2) - 16 * (real_of_int (sz div 3) / 32))
            (real_of_int (sz div 2) - 21 * (real_of_int (sz div 3) / 32))
            (real_of_int (sz div 2) + 16 * (real_of_int (sz div 3) / 32))
            (real_of_int (sz div 2) + 21 * (real_of_int (sz div 3) / 32)) v"
proof
  fix v assume "v \<in> set (heart_points_icons sz)"
  from heart_icons_vertex [OF this assms] show "in_box (real_of_int (sz div 2) - 16 * (real_of_int (sz div 3) / 32))
            (real_of_int (sz div 2) - 21 * (real_of_int (sz div 3) / 32))
            (real_of_int (sz div 2) + 16 * (real_of_int (sz div 3) / 32))
            (real_of_int (sz div 2) + 21 * (real_of_int (sz div 3) / 32)) v"
    unfolding in_box_def by linarith
qed

lemma heart_beautiful_box:
  assumes "0 \<le> sz"
  shows "\<forall>v\<in>set (heart_points_beautiful sz).
     in_box (real_of_int (sz div 2) - 16 * (real_of_int (sz div 3) / 20))
            (real_of_int (sz div 2) - 21 * (real_of_int (sz div 3) / 20))
            (real_of_int (sz div 2) + 16 * (real_of_int (sz div 3) / 20))
            (real_of_int (sz div 2) + 21 * (real_of_int (sz div 3) / 20)) v"
proof
  fix v assume "v \<in> set (heart_points_beautiful sz)"
  from heart_beautiful_vertex [OF this assms] show "in_box (real_of_int (sz div 2) - 16 * (real_of_int (sz div 3) / 20))
            (real_of_int (sz div 2) - 21 * (real_of_int (sz div 3) / 20))
            (real_of_int (sz div 2) + 16 * (real_of_int (sz div 3) / 20))
            (real_of_int (sz div 2) + 21 * (real_of_int (sz div 3) / 20)) v"
    unfolding in_box_def by linarith
qed

lemma box_shift:
  assumes "\<forall>v\<in>set pts. in_box x0 y0 x1 y1 v"
  shows "\<forall>v\<in>set (map (\<lambda>(x, y). (x + d, y + d)) pts). in_box (x0 + d) (y0 + d) (x1 + d) (y1 + d) v"
  using assms by (auto simp: in_box_def)

lemma box_shift_minus:
  assumes "\<forall>v\<in>set pts. in_box x0 y0 x1 y1 v"
  shows "\<forall>v\<in>set (map (\<lambda>(x, y). (x - d, y - d)) pts). in_box (x0 - d) (y0 - d) (x1 - d) (y1 - d) v"
  using assms by (auto simp: in_box_def)

lemma box_take:
  assumes "\<forall>v\<in>set pts. in_box x0 y0 x1 y1 v"
  shows "\<forall>v\<in>set (take n pts). in_box x0 y0 x1 y1 v"
  using assms by (meson in_set_takeD)

lemma wf_rgb_cell:
  assumes "wf_rgb img" and "inside (width img) (height img) p"
  shows "\<exists>r g b. px img p = Some (Rgb r g b)"
proof -
  have "px img p \<noteq> None"
    using assms unfolding wf_rgb_def by blast
  then obtain c where c: "px img p = Some c"
    by blast
  then have "is_rgb c"
    using assms(1) unfolding wf_rgb_def by blast
  then show ?thesis
    using c by (cases c) auto
qed

lemma mask_paste_px:
  assumes "renders sz (Inr img)" and "0 \<le> sz" and "sz < 2 ^ 31" and "inside sz sz p"
    and "0 \<le> a" "a \<le> 255" "0 \<le> b" "b \<le> 255" "0 \<le> c" "c \<le> 255"
  shows "\<exists>f. ebind (Image_new ModeL (sz, sz) [0]) (\<lambda>msk.
      ebind (draw_rounded_rectangle R msk (0, 0, sz, sz) r [255]) (\<lambda>msk.
      ebind (Image_new ModeRGB (sz, sz) [a, b, c]) (\<lambda>final_img.
      paste final_img img msk))) = Inr f \<and> renders sz (Inr f) \<and>
      px f p = (if rounded_cov R (0, 0, sz, sz) r p then px img p else Some (Rgb a b c))"
proof -
  have l: "length [a, b, c] = 3 \<or> length [a, b, c] = 4"
    by simp
  have "renders sz (ebind (Image_new ModeL (sz, sz) [0]) (\<lambda>msk.
      ebind (draw_rounded_rectangle R msk (0, 0, sz, sz) r [255]) (\<lambda>msk.
      ebind (Image_new ModeRGB (sz, sz) [a, b, c]) (\<lambda>final_img.
      paste final_img img msk))))"
    by (rule renders_mask_paste [OF assms(1,2,3) l])
  then obtain f where f: "ebind (Image_new ModeL (sz, sz) [0]) (\<lambda>msk.
      ebind (draw_rounded_rectangle R msk (0, 0, sz, sz) r [255]) (\<lambda>msk.
      ebind (Image_new ModeRGB (sz, sz) [a, b, c]) (\<lambda>final_img.
      paste final_img img msk))) = Inr f" "renders sz (Inr f)"
    using renders_split by blast
  have w: "width img = sz" "height img = sz" "wf_rgb img"
    using assms(1) by simp_all
  obtain r' g' b' where s: "px img p = Some (Rgb r' g' b')"
    using wf_rgb_cell [of img p] w assms(4) by auto
  have "px f p = (if rounded_cov R (0, 0, sz, sz) r p then px img p else Some (Rgb a b c))"
    using f(1) assms(2-10) w(1,2)
    by (simp add: Image_new_def draw_rounded_rectangle_def paste_def px_paint s
          split: if_splits)
      (auto simp: px_paint s)
  then show ?thesis
    using f by blast
qed

lemma tooth_box:
  assumes "0 \<le> r"
  shows "\<forall>v\<in>set (gear_tooth gx gy r i).
     in_box (real_of_int gx - real_of_int (r + 3)) (real_of_int gy - real_of_int (r + 3))
            (real_of_int gx + real_of_int (r + 3)) (real_of_int gy + real_of_int (r + 3)) v"
proof -
  have b: "\<bar>k * c\<bar> \<le> real_of_int r + 3" if "0 \<le> k" "k \<le> real_of_int r + 3" "\<bar>c\<bar> \<le> 1"
    for k c :: real
  proof -
    have "\<bar>k * c\<bar> \<le> k * 1"
      unfolding abs_mult using that by (intro mult_mono) simp_all
    then show ?thesis using that(2) by simp
  qed
  have r0: "(0::real) \<le> real_of_int r" "(0::real) \<le> real_of_int r + 3"
    "real_of_int r \<le> real_of_int r + 3" "real_of_int r + 3 \<le> real_of_int r + 3"
    using assms by simp_all
  have o: "\<bar>(real_of_int r + 3) * cos a\<bar> \<le> real_of_int r + 3"
    "\<bar>(real_of_int r + 3) * sin a\<bar> \<le> real_of_int r + 3"
    "\<bar>real_of_int r * cos a\<bar> \<le> real_of_int r + 3"
    "\<bar>real_of_int r * sin a\<bar> \<le> real_of_int r + 3" for a :: real
    by (rule b [OF r0(2,4)], simp, rule b [OF r0(2,4)], simp,
        rule b [OF r0(1,3)], simp, rule b [OF r0(1,3)], simp)
  define a0 where "a0 = 2 * pi * real_of_int i / real_of_int 8"
  have t: "gear_tooth gx gy r i =
    [(real_of_int gx + (real_of_int r + 3) * cos a0, real_of_int gy + (real_of_int r + 3) * sin a0),
     (real_of_int gx + real_of_int r * cos (a0 - 2 / 10), real_of_int gy + real_of_int r * sin (a0 - 2 / 10)),
     (real_of_int gx + real_of_int r * cos (a0 + 2 / 10), real_of_int gy + real_of_int r * sin (a0 + 2 / 10))]"
    by (simp add: gear_tooth_def Let_def a0_def)
  show ?thesis
    unfolding t in_box_def
    using o [of a0] o [of "a0 - 2 / 10"] o [of "a0 + 2 / 10"]
    by (simp add: abs_le_iff)
qed

lemma dot_clear_inner:
  assumes "(\<bar>real_of_int (x - sz div 2)\<bar> + real_of_int (max 2 (sz div 100)))\<^sup>2 +
           (\<bar>real_of_int (y - sz div 2)\<bar> + real_of_int (max 2 (sz div 100)))\<^sup>2
           < (real_of_int (sz div 3 + 20))\<^sup>2"
  shows "\<not> geom_ellipse (dot_box sz i) (x, y)"
proof
  assume c: "geom_ellipse (dot_box sz i) (x, y)"
  define a where "a = 2 * pi * real_of_int i / real_of_int 6"
  define d where "d = real_of_int (sz div 3 + 20)"
  define r where "r = real_of_int (max 2 (sz div 100))"
  define u where "u = real_of_int (x - sz div 2)"
  define v where "v = real_of_int (y - sz div 2)"
  have r0: "0 \<le> r"
    by (simp add: r_def)
  have "\<bar>u - d * cos a\<bar> \<le> r" "\<bar>v - d * sin a\<bar> \<le> r"
    using c unfolding dot_box_def Let_def geom_ellipse_def a_def d_def r_def u_def v_def
    by (simp_all add: abs_le_iff)
  then have "\<bar>d * cos a\<bar> \<le> \<bar>u\<bar> + r" "\<bar>d * sin a\<bar> \<le> \<bar>v\<bar> + r"
    by linarith+
  then have "(d * cos a)\<^sup>2 \<le> (\<bar>u\<bar> + r)\<^sup>2" "(d * sin a)\<^sup>2 \<le> (\<bar>v\<bar> + r)\<^sup>2"
    by (simp_all add: abs_le_square_iff [symmetric])
  moreover have "(d * cos a)\<^sup>2 + (d * sin a)\<^sup>2 = d\<^sup>2"
    by (simp add: power_mult_distrib distrib_left [symmetric])
  ultimately have "d\<^sup>2 \<le> (\<bar>u\<bar> + r)\<^sup>2 + (\<bar>v\<bar> + r)\<^sup>2"
    by linarith
  then show False
    using assms unfolding d_def r_def u_def v_def by linarith
qed

lemma dot_clear_outer:
  assumes "real_of_int (max 2 (sz div 100)) \<le> \<bar>real_of_int (x - sz div 2)\<bar>"
    and "real_of_int (max 2 (sz div 100)) \<le> \<bar>real_of_int (y - sz div 2)\<bar>"
    and "(real_of_int (sz div 3 + 20))\<^sup>2 <
           (\<bar>real_of_int (x - sz div 2)\<bar> - real_of_int (max 2 (sz div 100)))\<^sup>2 +
           (\<bar>real_of_int (y - sz div 2)\<bar> - real_of_int (max 2 (sz div 100)))\<^sup>2"
  shows "\<not> geom_ellipse (dot_box sz i) (x, y)"
proof
  assume c: "geom_ellipse (dot_box sz i) (x, y)"
  define a where "a = 2 * pi * real_of_int i / real_of_int 6"
  define d where "d = real_of_int (sz div 3 + 20)"
  define r where "r = real_of_int (max 2 (sz div 100))"
  define u where "u = real_of_int (x - sz div 2)"
  define v where "v = real_of_int (y - sz div 2)"
  have ur: "r \<le> \<bar>u\<bar>" "r \<le> \<bar>v\<bar>"
    using assms(1,2) by (simp_all add: r_def u_def v_def)
  have "\<bar>u - d * cos a\<bar> \<le> r" "\<bar>v - d * sin a\<bar> \<le> r"
    using c unfolding dot_box_def Let_def geom_ellipse_def a_def d_def r_def u_def v_def
    by (simp_all add: abs_le_iff)
  then have "\<bar>\<bar>u\<bar> - r\<bar> \<le> \<bar>d * cos a\<bar>" "\<bar>\<bar>v\<bar> - r\<bar> \<le> \<bar>d * sin a\<bar>"
    using ur by linarith+
  then have "(\<bar>u\<bar> - r)\<^sup>2 \<le> (d * cos a)\<^sup>2" "(\<bar>v\<bar> - r)\<^sup>2 \<le> (d * sin a)\<^sup>2"
    by (simp_all add: abs_le_square_iff [symmetric])
  moreover have "(d * cos a)\<^sup>2 + (d * sin a)\<^sup>2 = d\<^sup>2"
    by (simp add: power_mult_distrib distrib_left [symmetric])
  ultimately have "(\<bar>u\<bar> - r)\<^sup>2 + (\<bar>v\<bar> - r)\<^sup>2 \<le> d\<^sup>2"
    by linarith
  then show False
    using assms(3) unfolding d_def r_def u_def v_def by linarith
qed

lemma keeps_dots:
  assumes "renders sz (Inr img)" and "\<And>i. \<not> geom_ellipse (dot_box sz i) p"
  shows "keeps sz p img (dots_beautiful geometric img sz)"
  unfolding dots_beautiful_def
proof (rule keeps_efold [OF _ assms(1)])
  fix i :: int and im
  assume im: "renders sz (Inr im)"
  obtain x0 y0 x1 y1 where b: "dot_box sz i = (x0, y0, x1, y1)"
    by (cases "dot_box sz i") auto
  have l: "length dot_fill = 3 \<or> length dot_fill = 4"
    by (simp add: dot_fill_def)
  have n: "\<not> ellipse_cov geometric (x0, y0, x1, y1) p"
    using assms(2) [of i] by (simp add: geometric_def b)
  show "keeps sz p im (draw_ellipse geometric im (dot_box sz i) dot_fill)"
    unfolding b using dot_box_ordered [OF b] by (intro keeps_ellipse [OF im l _ _ n]) simp_all
qed

lemma ebind_assoc: "ebind (ebind m f) g = ebind m (\<lambda>x. ebind (f x) g)"
  by (cases m) simp_all

lemma polygon_cov_geometric [simp]: "polygon_cov geometric = geom_polygon"
  "ellipse_cov geometric = geom_ellipse" "rounded_cov geometric = geom_rounded"
  "strict_boxes geometric = True"
  by (simp_all add: geometric_def)

lemma keeps_polygon_box:
  assumes "renders sz (Inr img)" and "length fill = 3 \<or> length fill = 4"
    and "2 \<le> length pts" and "\<forall>v\<in>set pts. in_box x0 y0 x1 y1 v"
    and "x1 \<le> real_of_int x \<or> real_of_int y < y0 \<or> y1 \<le> real_of_int y"
  shows "keeps sz (x, y) img (draw_polygon geometric img pts fill)"
  using polygon_box_outside [OF assms(4,5)]
  by (intro keeps_polygon [OF assms(1,2,3)]) simp

lemma keeps_ellipse_centered:
  assumes "renders sz (Inr img)" and "length fill = 3 \<or> length fill = 4" and "0 \<le> a"
    and "\<not> geom_ellipse (real_of_int (cx - a), real_of_int (cy - a),
            real_of_int (cx + a), real_of_int (cy + a)) p"
  shows "keeps sz p img (draw_ellipse geometric img
     (real_of_int (cx - a), real_of_int (cy - a), real_of_int (cx + a), real_of_int (cy + a)) fill)"
  using assms(3,4) by (intro keeps_ellipse [OF assms(1,2)]) simp_all

lemma keeps_rectangle_centered:
  assumes "renders sz (Inr img)" and "length fill = 3 \<or> length fill = 4"
    and "0 \<le> a" and "0 \<le> b"
    and "\<not> rectangle_cov (cx - a, cy - b, cx + a, cy + b) p"
  shows "keeps sz p img (draw_rectangle geometric img (cx - a, cy - b, cx + a, cy + b) fill)"
  using assms(3,4,5) by (intro keeps_rectangle [OF assms(1,2)]) simp_all

lemma keeps_heart_icons:
  assumes "renders sz (Inr img)" and "0 \<le> sz"
    and "real_of_int (sz div 2) + 16 * (real_of_int (sz div 3) / 32) + 2 \<le> real_of_int x \<or>
         real_of_int y < real_of_int (sz div 2) - 21 * (real_of_int (sz div 3) / 32) \<or>
         real_of_int (sz div 2) + 21 * (real_of_int (sz div 3) / 32) + 2 \<le> real_of_int y"
  shows "keeps sz (x, y) img (heart_icons geometric img sz)"
proof -
  note hb = heart_icons_box [OF assms(2)]
  have l: "length [0, 0, 0 :: int] = 3 \<or> length [0, 0, 0 :: int] = 4"
    "length [255, 255, 255 :: int] = 3 \<or> length [255, 255, 255 :: int] = 4"
    by simp_all
  have n: "2 \<le> length (heart_points_icons sz)"
    "2 \<le> length (map (\<lambda>(x, y). (x + 2, y + 2)) (heart_points_icons sz))"
    by simp_all
  have 1: "keeps sz (x, y) img (draw_polygon geometric img
       (map (\<lambda>(x, y). (x + 2, y + 2)) (heart_points_icons sz)) [0, 0, 0])"
    using assms(3) by (intro keeps_polygon_box [OF assms(1) l(1) n(2) box_shift [OF hb]]) linarith
  have 2: "keeps sz (x, y) im (draw_polygon geometric im (heart_points_icons sz) [255, 255, 255])"
    if "renders sz (Inr im)" for im
    using assms(3) by (intro keeps_polygon_box [OF that l(2) n(1) hb]) linarith
  show ?thesis
    unfolding heart_icons_def Let_def by (rule keeps_ebind [OF 1 2])
qed

lemma keeps_plus_icons:
  assumes "renders sz (Inr img)" and "16 \<le> sz"
    and "let center_x = sz div 2; center_y = sz div 2; heart_size = sz div 3;
         plus_size = sz div 8;
         plus_thickness = max 2 (sz div 40);
         plus_x = center_x + heart_size div 2 + plus_size div 2;
         plus_y = center_y - heart_size div 2 - plus_size div 2
     in \<not> geom_ellipse (real_of_int (plus_x - plus_size), real_of_int (plus_y - plus_size),
               real_of_int (plus_x + plus_size), real_of_int (plus_y + plus_size)) p \<and>
        \<not> rectangle_cov (plus_x - plus_thickness div 2, plus_y - plus_size + 2,
               plus_x + plus_thickness div 2, plus_y + plus_size - 2) p \<and>
        \<not> rectangle_cov (plus_x - plus_size + 2, plus_y - plus_thickness div 2,
               plus_x + plus_size - 2, plus_y + plus_thickness div 2) p"
  shows "keeps sz p img (plus_icons geometric img sz)"
proof -
  have a: "0 \<le> sz div 8" "0 \<le> max 2 (sz div 40) div 2" "2 \<le> sz div 8"
    using assms(2) by simp_all
  have l: "length [52, 199, 89 :: int] = 3 \<or> length [52, 199, 89 :: int] = 4"
    "length [255, 255, 255 :: int] = 3 \<or> length [255, 255, 255 :: int] = 4"
    by simp_all
  have o: "cx - t \<le> cx + t" "cy - s + 2 \<le> cy + s - 2"
    if "0 \<le> t" "2 \<le> s" for cx cy t s :: int
    using that by simp_all
  show ?thesis
    using assms(3) unfolding plus_icons_def Let_def
    by (intro keeps_ebind keeps_ellipse_centered [OF assms(1) l(2) a(1)]
          keeps_rectangle [OF _ l(1)] o [OF a(2,3)]) simp_all
qed

lemma render_app_icon_split:
  "render_app_icon R sz = ebind (gradient_image_icons sz) (\<lambda>img.
     ebind (corners_icons R img sz) (\<lambda>final_img.
     ebind (heart_icons R final_img sz) (\<lambda>final_img. plus_icons R final_img sz)))"
  by (simp add: render_app_icon_def gradient_image_icons_def ebind_assoc)

lemma pixel_at_keeps:
  assumes "keeps sz p img r" and "px img p = Some c"
  shows "pixel_at r p = Inr c"
  using assms by (cases r) (simp_all add: pixel_at_def getpixel_def)

lemma icons_pixel:
  assumes sz: "16 \<le> sz" and hi: "sz < 2 ^ 31" and p: "inside sz sz (x, y)"
    and grad: "gradient_icons sz y = [r, g, b]"
    and bytes: "0 \<le> r" "r \<le> 255" "0 \<le> g" "g \<le> 255" "0 \<le> b" "b \<le> 255"
    and heart: "real_of_int (sz div 2) + 16 * (real_of_int (sz div 3) / 32) + 2 \<le> real_of_int x \<or>
         real_of_int y < real_of_int (sz div 2) - 21 * (real_of_int (sz div 3) / 32) \<or>
         real_of_int (sz div 2) + 21 * (real_of_int (sz div 3) / 32) + 2 \<le> real_of_int y"
    and plus: "let center_x = sz div 2; center_y = sz div 2; heart_size = sz div 3;
         plus_size = sz div 8;
         plus_thickness = max 2 (sz div 40);
         plus_x = center_x + heart_size div 2 + plus_size div 2;
         plus_y = center_y - heart_size div 2 - plus_size div 2
     in \<not> geom_ellipse (real_of_int (plus_x - plus_size), real_of_int (plus_y - plus_size),
               real_of_int (plus_x + plus_size), real_of_int (plus_y + plus_size)) (x, y) \<and>
        \<not> rectangle_cov (plus_x - plus_thickness div 2, plus_y - plus_size + 2,
               plus_x + plus_thickness div 2, plus_y + plus_size - 2) (x, y) \<and>
        \<not> rectangle_cov (plus_x - plus_size + 2, plus_y - plus_thickness div 2,
               plus_x + plus_size - 2, plus_y + plus_thickness div 2) (x, y)"
  shows "pixel_at (render_app_icon geometric sz) (x, y) =
     Inr (if geom_rounded (0, 0, sz, sz) (sz div 6) (x, y) then Rgb r g b else Rgb 255 255 255)"
proof -
  have z: "0 \<le> sz" using sz by simp
  have len: "\<forall>y. length (gradient_icons sz y) = 3"
    by simp
  obtain im where im: "gradient_image_icons sz = Inr im" "renders sz (Inr im)"
      "\<And>p. inside sz sz p \<Longrightarrow> px im p = Some (projr (getink ModeRGB (gradient_icons sz (snd p))))"
    using gradient_image_px [where grad = "gradient_icons sz", OF z hi len]
    unfolding gradient_image_icons_def background_icons_def by blast
  have pim: "px im (x, y) = Some (Rgb r g b)"
    using im(3) [OF p] grad bytes by simp
  obtain f where f: "corners_icons geometric im sz = Inr f" "renders sz (Inr f)"
      "px f (x, y) = (if geom_rounded (0, 0, sz, sz) (sz div 6) (x, y) then px im (x, y)
                      else Some (Rgb 255 255 255))"
    using mask_paste_px [OF im(2) z hi p, of 255 255 255 geometric "sz div 6"]
    unfolding corners_icons_def Let_def by auto
  have k: "keeps sz (x, y) f (ebind (heart_icons geometric f sz)
      (\<lambda>final_img. plus_icons geometric final_img sz))"
    by (intro keeps_ebind keeps_heart_icons [OF f(2) z heart] keeps_plus_icons [OF _ sz plus])
  have "pixel_at (ebind (heart_icons geometric f sz)
      (\<lambda>final_img. plus_icons geometric final_img sz)) (x, y)
      = Inr (if geom_rounded (0, 0, sz, sz) (sz div 6) (x, y) then Rgb r g b else Rgb 255 255 255)"
    by (rule pixel_at_keeps [OF k]) (simp add: f(3) pim)
  then show ?thesis
    by (simp add: render_app_icon_split im(1) f(1))
qed

lemma corner_icons_20:
  "pixel_at (render_app_icon geometric 20) (19, 19) = Inr (Rgb 34 142 36)"
proof -
  have "pixel_at (render_app_icon geometric 20) (19, 19) =
     Inr (if geom_rounded (0, 0, 20, 20) (20 div 6) (19, 19) then Rgb 34 142 36 else Rgb 255 255 255)"
    by (rule icons_pixel [OF _ _ _ gradient_icons_20_19])
       (simp_all add: inside_def geom_ellipse_def rectangle_cov_def Let_def)
  then show ?thesis
    by (simp add: geom_rounded_def Let_def)
qed

lemma keeps_heart_beautiful:
  assumes "renders sz (Inr img)" and "0 \<le> sz"
    and "real_of_int (sz div 2) + 16 * (real_of_int (sz div 3) / 20)
           + real_of_int (max 2 (sz div 200)) \<le> real_of_int x \<or>
         real_of_int y < real_of_int (sz div 2) - 21 * (real_of_int (sz div 3) / 20)
           - real_of_int (max 2 (sz div 200) div 2) \<or>
         real_of_int (sz div 2) + 21 * (real_of_int (sz div 3) / 20)
           + real_of_int (max 2 (sz div 200)) \<le> real_of_int y"
  shows "keeps sz (x, y) img (heart_beautiful geometric img sz)"
proof -
  note hb = heart_beautiful_box [OF assms(2)]
  define so where "so = max 2 (sz div 200)"
  have so: "0 \<le> real_of_int so" "0 \<le> real_of_int (so div 2)"
    by (simp_all add: so_def)
  have l: "length [200, 200, 200 :: int] = 3 \<or> length [200, 200, 200 :: int] = 4"
    "length heart_color = 3 \<or> length heart_color = 4"
    "length [82, 229, 119 :: int] = 3 \<or> length [82, 229, 119 :: int] = 4"
    by (simp_all add: heart_color_def)
  let ?sh = "map (\<lambda>(x, y). (x + real_of_int so, y + real_of_int so)) (heart_points_beautiful sz)"
  let ?hl = "map (\<lambda>(x, y). (x - real_of_int (so div 2), y - real_of_int (so div 2)))
     (take (length (heart_points_beautiful sz) div 3) (heart_points_beautiful sz))"
  have n: "2 \<le> length (heart_points_beautiful sz)" "2 \<le> length ?sh" "2 \<le> length ?hl"
    by simp_all
  have c: "real_of_int (sz div 2) + 16 * (real_of_int (sz div 3) / 20) + real_of_int so \<le> real_of_int x \<or>
         real_of_int y < real_of_int (sz div 2) - 21 * (real_of_int (sz div 3) / 20)
           - real_of_int (so div 2) \<or>
         real_of_int (sz div 2) + 21 * (real_of_int (sz div 3) / 20) + real_of_int so \<le> real_of_int y"
    using assms(3) by (simp add: so_def)
  have 1: "keeps sz (x, y) img (draw_polygon geometric img ?sh [200, 200, 200])"
    using c so by (intro keeps_polygon_box [OF assms(1) l(1) n(2) box_shift [OF hb]]) linarith
  have 2: "keeps sz (x, y) im (draw_polygon geometric im (heart_points_beautiful sz) heart_color)"
    if "renders sz (Inr im)" for im
    using c so by (intro keeps_polygon_box [OF that l(2) n(1) hb]) linarith
  have 3: "keeps sz (x, y) im (if ?hl \<noteq> [] then draw_polygon geometric im ?hl [82, 229, 119]
      else Inr im)"
    if "renders sz (Inr im)" for im
  proof -
    have "keeps sz (x, y) im (draw_polygon geometric im ?hl [82, 229, 119])"
      using c so
      by (intro keeps_polygon_box [OF that l(3) n(3) box_shift_minus [OF box_take [OF hb]]])
         linarith
    then show ?thesis
      using that by simp
  qed
  show ?thesis
    unfolding heart_beautiful_def Let_def so_def [symmetric]
    by (intro keeps_ebind 1 2 3)
qed

lemma keeps_gear_beautiful:
  assumes "renders sz (Inr img)" and "0 \<le> sz"
    and "let center_x = sz div 2; center_y = sz div 2; heart_size = sz div 3;
         gear_size = sz div 6;
         gear_x = center_x + heart_size div 2 + gear_size div 2;
         gear_y = center_y - heart_size div 2 - gear_size div 2;
         gear_radius = gear_size div 2
     in gear_x + gear_radius + 3 \<le> x \<or> y < gear_y - gear_radius - 3 \<or> gear_y + gear_radius + 3 \<le> y"
  shows "keeps sz (x, y) img (gear_beautiful geometric img sz)"
proof -
  define gr where "gr = sz div 6 div 2"
  define gx where "gx = sz div 2 + sz div 3 div 2 + gr"
  define gy where "gy = sz div 2 - sz div 3 div 2 - gr"
  have a: "0 \<le> gr" "0 \<le> gr div 2" "gr div 2 \<le> gr"
    using assms(2) by (simp_all add: gr_def)
  have c: "gx + gr + 3 \<le> x \<or> y < gy - gr - 3 \<or> gy + gr + 3 \<le> y"
    using assms(3) by (simp add: Let_def gx_def gy_def gr_def)
  have l: "length [255, 255, 255 :: int] = 3 \<or> length [255, 255, 255 :: int] = 4"
    "length [100, 100, 100 :: int] = 3 \<or> length [100, 100, 100 :: int] = 4"
    "length [150, 150, 150 :: int] = 3 \<or> length [150, 150, 150 :: int] = 4"
    by simp_all
  have t: "2 \<le> length (gear_tooth gx gy gr i)" for i
    by (simp add: gear_tooth_def Let_def)
  have e: "\<not> geom_ellipse (real_of_int (gx - k), real_of_int (gy - k),
            real_of_int (gx + k), real_of_int (gy + k)) (x, y)" if "0 \<le> k" "k \<le> gr" for k
  proof (rule ellipse_outside)
    have "gx + k < x \<or> y < gy - k \<or> gy + k < y"
      using c that by linarith
    then show "real_of_int x < real_of_int (gx - k) \<or> real_of_int (gx + k) < real_of_int x \<or>
      real_of_int y < real_of_int (gy - k) \<or> real_of_int (gy + k) < real_of_int y"
      by (simp only: of_int_less_iff) blast
  qed
  have cr: "real_of_int gx + real_of_int (gr + 3) \<le> real_of_int x \<or>
      real_of_int y < real_of_int gy - real_of_int (gr + 3) \<or>
      real_of_int gy + real_of_int (gr + 3) \<le> real_of_int y"
  proof -
    have "gx + (gr + 3) \<le> x \<or> y < gy - (gr + 3) \<or> gy + (gr + 3) \<le> y"
      using c by linarith
    then have "real_of_int (gx + (gr + 3)) \<le> real_of_int x \<or>
      real_of_int y < real_of_int (gy - (gr + 3)) \<or>
      real_of_int (gy + (gr + 3)) \<le> real_of_int y"
      by (simp only: of_int_less_iff of_int_le_iff)
    then show ?thesis by simp
  qed
  have 1: "keeps sz (x, y) img (draw_ellipse geometric img
     (real_of_int (gx - gr), real_of_int (gy - gr), real_of_int (gx + gr), real_of_int (gy + gr))
     [255, 255, 255])"
    by (intro keeps_ellipse_centered [OF assms(1) l(1) a(1)] e) (simp_all add: a)
  have 2: "keeps sz (x, y) im (draw_polygon geometric im (gear_tooth gx gy gr i) [100, 100, 100])"
    if "renders sz (Inr im)" for im i
    by (rule keeps_polygon_box [OF that l(2) t tooth_box [OF a(1)] cr])
  have 3: "keeps sz (x, y) im (draw_ellipse geometric im
     (real_of_int (gx - gr div 2), real_of_int (gy - gr div 2),
      real_of_int (gx + gr div 2), real_of_int (gy + gr div 2)) [150, 150, 150])"
    if "renders sz (Inr im)" for im
    by (intro keeps_ellipse_centered [OF that l(3) a(2)] e a)
  show ?thesis
    unfolding gear_beautiful_def Let_def gr_def [symmetric] gx_def [symmetric] gy_def [symmetric]
    by (intro keeps_ebind keeps_efold 1 2 3)
qed

lemma keeps_plus_beautiful:
  assumes "renders sz (Inr img)" and "0 \<le> sz"
    and "let center_x = sz div 2; center_y = sz div 2; heart_size = sz div 3;
         plus_size = sz div 8;
         plus_x = center_x + heart_size div 2;
         plus_y = center_y + heart_size div 2;
         plus_thickness = max 3 (sz div 60);
         plus_bg_radius = plus_size div 2 + 2
     in \<not> geom_ellipse (real_of_int (plus_x - plus_bg_radius), real_of_int (plus_y - plus_bg_radius),
               real_of_int (plus_x + plus_bg_radius), real_of_int (plus_y + plus_bg_radius)) p \<and>
        \<not> rectangle_cov (plus_x - plus_size div 2, plus_y - plus_thickness div 2,
               plus_x + plus_size div 2, plus_y + plus_thickness div 2) p \<and>
        \<not> rectangle_cov (plus_x - plus_thickness div 2, plus_y - plus_size div 2,
               plus_x + plus_thickness div 2, plus_y + plus_size div 2) p"
  shows "keeps sz p img (plus_beautiful geometric img sz)"
proof -
  have a: "0 \<le> sz div 8 div 2" "0 \<le> max 3 (sz div 60) div 2" "0 \<le> sz div 8 div 2 + 2"
    using assms(2) by simp_all
  have l: "length [255, 255, 255 :: int] = 3 \<or> length [255, 255, 255 :: int] = 4"
    "length heart_color = 3 \<or> length heart_color = 4"
    by (simp_all add: heart_color_def)
  show ?thesis
    using assms(3) unfolding plus_beautiful_def Let_def
    by (intro keeps_ebind keeps_ellipse_centered [OF assms(1) l(1) a(3)]
          keeps_rectangle_centered [OF _ l(2) a(1,2)]
          keeps_rectangle_centered [OF _ l(2) a(2,1)]) simp_all
qed

lemma render_beautiful_split:
  "render_beautiful_app_icon R sz =
     ebind (ebind (Image_new ModeRGB (sz, sz) [255, 255, 255]) (\<lambda>img. background_beautiful img sz))
       (\<lambda>img. ebind (corners_beautiful R img sz) (\<lambda>final_img.
     ebind (heart_beautiful R final_img sz) (\<lambda>final_img.
     ebind (gear_beautiful R final_img sz) (\<lambda>final_img.
     ebind (plus_beautiful R final_img sz) (\<lambda>final_img.
     dots_beautiful R final_img sz)))))"
  by (simp add: render_beautiful_app_icon_def ebind_assoc)

lemma beautiful_pixel:
  assumes sz: "0 \<le> sz" and hi: "sz < 2 ^ 31" and p: "inside sz sz (x, y)"
    and grad: "gradient_beautiful sz y = [r, g, b]"
    and bytes: "0 \<le> r" "r \<le> 255" "0 \<le> g" "g \<le> 255" "0 \<le> b" "b \<le> 255"
    and heart: "real_of_int (sz div 2) + 16 * (real_of_int (sz div 3) / 20)
           + real_of_int (max 2 (sz div 200)) \<le> real_of_int x \<or>
         real_of_int y < real_of_int (sz div 2) - 21 * (real_of_int (sz div 3) / 20)
           - real_of_int (max 2 (sz div 200) div 2) \<or>
         real_of_int (sz div 2) + 21 * (real_of_int (sz div 3) / 20)
           + real_of_int (max 2 (sz div 200)) \<le> real_of_int y"
    and gear: "let center_x = sz div 2; center_y = sz div 2; heart_size = sz div 3;
         gear_size = sz div 6;
         gear_x = center_x + heart_size div 2 + gear_size div 2;
         gear_y = center_y - heart_size div 2 - gear_size div 2;
         gear_radius = gear_size div 2
     in gear_x + gear_radius + 3 \<le> x \<or> y < gear_y - gear_radius - 3 \<or> gear_y + gear_radius + 3 \<le> y"
    and plus: "let center_x = sz div 2; center_y = sz div 2; heart_size = sz div 3;
         plus_size = sz div 8;
         plus_x = center_x + heart_size div 2;
         plus_y = center_y + heart_size div 2;
         plus_thickness = max 3 (sz div 60);
         plus_bg_radius = plus_size div 2 + 2
     in \<not> geom_ellipse (real_of_int (plus_x - plus_bg_radius), real_of_int (plus_y - plus_bg_radius),
               real_of_int (plus_x + plus_bg_radius), real_of_int (plus_y + plus_bg_radius)) (x, y) \<and>
        \<not> rectangle_cov (plus_x - plus_size div 2, plus_y - plus_thickness div 2,
               plus_x + plus_size div 2, plus_y + plus_thickness div 2) (x, y) \<and>
        \<not> rectangle_cov (plus_x - plus_thickness div 2, plus_y - plus_size div 2,
               plus_x + plus_thickness div 2, plus_y + plus_size div 2) (x, y)"
    and dots: "\<And>i. \<not> geom_ellipse (dot_box sz i) (x, y)"
  shows "pixel_at (render_beautiful_app_icon geometric sz) (x, y) =
     Inr (if geom_rounded (0, 0, sz, sz) (sz div 8) (x, y) then Rgb r g b else Rgb 248 249 250)"
proof -
  have len: "\<forall>y. length (gradient_beautiful sz y) = 3"
    by simp
  obtain im where im: "ebind (Image_new ModeRGB (sz, sz) [255, 255, 255])
        (\<lambda>img. background_beautiful img sz) = Inr im" "renders sz (Inr im)"
      "\<And>p. inside sz sz p \<Longrightarrow> px im p = Some (projr (getink ModeRGB (gradient_beautiful sz (snd p))))"
    using gradient_image_px [where grad = "gradient_beautiful sz", OF sz hi len]
    unfolding background_beautiful_def by blast
  have pim: "px im (x, y) = Some (Rgb r g b)"
    using im(3) [OF p] grad bytes by simp
  obtain f where f: "corners_beautiful geometric im sz = Inr f" "renders sz (Inr f)"
      "px f (x, y) = (if geom_rounded (0, 0, sz, sz) (sz div 8) (x, y) then px im (x, y)
                      else Some (Rgb 248 249 250))"
    using mask_paste_px [OF im(2) sz hi p, of 248 249 250 geometric "sz div 8"]
    unfolding corners_beautiful_def Let_def by auto
  have k: "keeps sz (x, y) f (ebind (heart_beautiful geometric f sz) (\<lambda>final_img.
     ebind (gear_beautiful geometric final_img sz) (\<lambda>final_img.
     ebind (plus_beautiful geometric final_img sz) (\<lambda>final_img.
     dots_beautiful geometric final_img sz))))"
    by (intro keeps_ebind keeps_heart_beautiful [OF f(2) sz heart]
          keeps_gear_beautiful [OF _ sz gear] keeps_plus_beautiful [OF _ sz plus]
          keeps_dots dots)
  have "pixel_at (ebind (heart_beautiful geometric f sz) (\<lambda>final_img.
     ebind (gear_beautiful geometric final_img sz) (\<lambda>final_img.
     ebind (plus_beautiful geometric final_img sz) (\<lambda>final_img.
     dots_beautiful geometric final_img sz)))) (x, y)
      = Inr (if geom_rounded (0, 0, sz, sz) (sz div 8) (x, y) then Rgb r g b else Rgb 248 249 250)"
    by (rule pixel_at_keeps [OF k]) (simp add: f(3) pim)
  then show ?thesis
    by (simp add: render_beautiful_split im(1) f(1))
qed

lemma corner_beautiful_20:
  "pixel_at (render_beautiful_app_icon geometric 20) (19, 19) = Inr (Rgb 230 242 230)"
proof -
  have "pixel_at (render_beautiful_app_icon geometric 20) (19, 19) =
     Inr (if geom_rounded (0, 0, 20, 20) (20 div 8) (19, 19) then Rgb 230 242 230 else Rgb 248 249 250)"
  proof (rule beautiful_pixel [OF _ _ _ gradient_beautiful_20_19])
    show "\<not> geom_ellipse (dot_box 20 i) (19, 19)" for i
      by (rule dot_clear_inner) simp
  qed (simp_all add: inside_def geom_ellipse_def rectangle_cov_def Let_def)
  then show ?thesis
    by (simp add: geom_rounded_def Let_def)
qed

section \<open>Sizes that are refused\<close>

lemma render_negative:
  assumes "sz < 0"
  shows "render_app_icon R sz = Inl ValueError" "render_solid_app_icon R sz = Inl ValueError"
    "render_beautiful_app_icon R sz = Inl ValueError"
  using assms
  by (simp_all add: render_app_icon_def render_solid_app_icon_def
        render_beautiful_app_icon_def new_negative)

lemma render_overflow:
  assumes "2 ^ 31 \<le> sz"
  shows "render_app_icon R sz = Inl OverflowError" "render_solid_app_icon R sz = Inl OverflowError"
    "render_beautiful_app_icon R sz = Inl OverflowError"
  using assms
  by (simp_all add: render_app_icon_def render_solid_app_icon_def
        render_beautiful_app_icon_def new_overflow)

lemma save_renders:
  assumes "renders sz (Inr img)"
  shows "save img path fs = (if sz = 0 then Inl ValueError else Inr (fs(path \<mapsto> img)))"
  using assms by (simp add: save_def)

lemma save_after:
  assumes "renders sz r"
  shows "ebind r (\<lambda>img. save img path fs) =
     (if sz = 0 then Inl ValueError else Inr (fs(path \<mapsto> projr r)))"
  using assms by (cases r) (simp_all add: save_def)

lemma plus_icons_strict:
  assumes "renders sz (Inr img)" and "strict_boxes R" and "0 \<le> sz" and "sz < 16"
  shows "plus_icons R img sz = Inl ValueError"
proof -
  define s where "s = sz div 8"
  define t where "t = max 2 (sz div 40) div 2"
  have s: "0 \<le> s" "s < 2"
    using assms(3,4) by (simp_all add: s_def)
  have l: "length [255, 255, 255 :: int] = 3 \<or> length [255, 255, 255 :: int] = 4"
    by simp
  have e: "\<exists>e. draw_ellipse R img
              (real_of_int (x - s), real_of_int (y - s), real_of_int (x + s), real_of_int (y + s))
              [255, 255, 255] = Inr e" for x y
    using renders_ellipse_centered [OF assms(1) l s(1), of R x y]
    by (cases "draw_ellipse R img
              (real_of_int (x - s), real_of_int (y - s), real_of_int (x + s), real_of_int (y + s))
              [255, 255, 255]") auto
  have r: "draw_rectangle R im (x - t, y - s + 2, x + t, y + s - 2) fill = Inl ValueError"
    for im x y fill
    using s assms(2) by (simp add: draw_rectangle_def)
  show ?thesis
    unfolding plus_icons_def Let_def s_def [symmetric] t_def [symmetric]
    using e r by (metis ebind_Inr ebind_Inl)
qed

lemma render_icons_strict:
  assumes "strict_boxes R" and "0 \<le> sz" and "sz < 16"
  shows "render_app_icon R sz = Inl ValueError"
proof -
  have hi: "sz < 2 ^ 31"
    using assms(3) by simp
  have l: "length [255, 255, 255 :: int] = 3 \<or> length [255, 255, 255 :: int] = 4"
    by simp
  obtain a where a: "Image_new ModeRGB (sz, sz) [255, 255, 255] = Inr a" "renders sz (Inr a)"
    using renders_split [OF renders_new [OF assms(2) hi l]] by blast
  obtain b where b: "background_icons a sz = Inr b" "renders sz (Inr b)"
    using renders_split [OF renders_background_icons [OF a(2)]] by blast
  obtain c where c: "corners_icons R b sz = Inr c" "renders sz (Inr c)"
    using renders_split [OF renders_corners_icons [OF b(2) assms(2) hi]] by blast
  obtain d where d: "heart_icons R c sz = Inr d" "renders sz (Inr d)"
    using renders_split [OF renders_heart_icons [OF c(2)]] by blast
  show ?thesis
    by (simp add: render_app_icon_def a(1) b(1) c(1) d(1) plus_icons_strict [OF d(2) assms])
qed

lemma create_zero:
  "create_app_icon R 0 path fs = Inl ValueError"
  "create_solid_app_icon R 0 path fs = Inl ValueError"
  "create_beautiful_app_icon R 0 path fs = Inl ValueError"
proof -
  show "create_solid_app_icon R 0 path fs = Inl ValueError"
    unfolding create_solid_app_icon_def by (simp add: save_after [OF renders_solid])
  show "create_beautiful_app_icon R 0 path fs = Inl ValueError"
    unfolding create_beautiful_app_icon_def by (simp add: save_after [OF renders_beautiful])
  show "create_app_icon R 0 path fs = Inl ValueError"
  proof (cases "strict_boxes R")
    case True
    then show ?thesis
      by (simp add: create_app_icon_def render_icons_strict)
  next
    case False
    then have "renders 0 (render_app_icon R 0)"
      by (intro renders_icons) simp_all
    then show ?thesis
      unfolding create_app_icon_def by (simp add: save_after)
  qed
qed

lemma create_positive:
  assumes "0 < sz" and "renders sz r"
  shows "ebind r (\<lambda>img. save img path fs) = Inr (fs(path \<mapsto> projr r))"
  using assms by (simp add: save_after)

section \<open>The heart curve\<close>

text \<open>
  In \<open>c = cos t\<close> the ordinate of the curve is the polynomial
  \<open>8c^4 + 8c^3 + 2c^2 - 19c - 4\<close>: it reaches 17 at \<open>c = -1\<close> and stays above -12.
\<close>

lemma heart_y_poly:
  "heart_y t = 8 * cos t ^ 4 + 8 * cos t ^ 3 + 2 * cos t ^ 2 - 19 * cos t - 4"
proof -
  have c4: "cos (4 * t) = 2 * (cos (2 * t))\<^sup>2 - 1"
    using cos_double_cos [of "2 * t"] by simp
  have c2: "cos (2 * t) = 2 * (cos t)\<^sup>2 - 1"
    by (rule cos_double_cos)
  have c3: "cos (3 * t) = 4 * cos t ^ 3 - 3 * cos t"
    by (rule cos_treble_cos)
  have "(2 * (cos t)\<^sup>2 - 1)\<^sup>2 = 4 * cos t ^ 4 - 4 * (cos t)\<^sup>2 + 1"
    by (simp add: power2_eq_square power4_eq_xxxx algebra_simps)
  then show ?thesis
    unfolding heart_y_def c4 c3 c2 by simp
qed




lemma cube_le_one:
  fixes c :: real
  assumes "c \<le> 1"
  shows "c ^ 3 \<le> 1"
proof (cases "0 \<le> c")
  case True
  then show ?thesis
    using assms by (simp add: power_le_one)
next
  case False
  then have "c ^ 3 \<le> 0"
    by (simp add: power3_eq_cube mult_nonneg_nonpos mult_nonpos_nonneg zero_le_mult_iff mult_le_0_iff)
  then show ?thesis
    by linarith
qed

lemma heart_poly_le:
  fixes c :: real
  assumes "- 1 \<le> c" "c \<le> 1"
  shows "8 * c ^ 4 + 8 * c ^ 3 + 2 * c ^ 2 - 19 * c - 4 \<le> 17"
proof -
  have e: "17 - (8 * c ^ 4 + 8 * c ^ 3 + 2 * c ^ 2 - 19 * c - 4) = (c + 1) * (21 - 2 * c - 8 * c ^ 3)"
    by (simp add: algebra_simps power2_eq_square power4_eq_xxxx power3_eq_cube)
  have "c ^ 3 \<le> 1"
    using assms(2) by (rule cube_le_one)
  then have "0 \<le> (c + 1) * (21 - 2 * c - 8 * c ^ 3)"
    using assms by (intro mult_nonneg_nonneg) linarith+
  then show ?thesis
    using e by linarith
qed

lemma heart_y_le: "heart_y t \<le> 17"
  unfolding heart_y_poly by (rule heart_poly_le) simp_all


section \<open>Sine and cosine at the sample points\<close>

lemma cos_taylor:
  "\<bar>cos x - (\<Sum>m<n. cos_coeff m * x ^ m)\<bar> \<le> \<bar>x\<bar> ^ n / fact n"
proof -
  obtain t where t: "cos x = (\<Sum>m<n. cos_coeff m * x ^ m) + (cos (t + 1 / 2 * real n * pi) / fact n) * x ^ n"
    using Maclaurin_cos_expansion [of x n] by blast
  have "\<bar>(cos (t + 1 / 2 * real n * pi) / fact n) * x ^ n\<bar>
      = \<bar>cos (t + 1 / 2 * real n * pi)\<bar> * (\<bar>x\<bar> ^ n / fact n)"
    by (simp add: abs_mult power_abs)
  also have "\<dots> \<le> 1 * (\<bar>x\<bar> ^ n / fact n)"
    by (intro mult_right_mono) simp_all
  finally show ?thesis
    using t by simp
qed

lemma sin_taylor:
  "\<bar>sin x - (\<Sum>m<n. sin_coeff m * x ^ m)\<bar> \<le> \<bar>x\<bar> ^ n / fact n"
  using Maclaurin_sin_bound [of x n] by (simp add: divide_inverse mult.commute)

lemma cos_sum_24:
  "(\<Sum>m<24. cos_coeff m * x ^ m) = 1 - x\<^sup>2 / 2 * (1 - x\<^sup>2 / 12 * (1 - x\<^sup>2 / 30 * (1 - x\<^sup>2 / 56 * (1 - x\<^sup>2 / 90 * (1 - x\<^sup>2 / 132 * (1 - x\<^sup>2 / 182 * (1 - x\<^sup>2 / 240 * (1 - x\<^sup>2 / 306 * (1 - x\<^sup>2 / 380 * (1 - x\<^sup>2 / 462))))))))))"
  by (simp add: eval_nat_numeral sum.lessThan_Suc cos_coeff_Suc sin_coeff_Suc algebra_simps)

lemma sin_sum_24:
  "(\<Sum>m<24. sin_coeff m * x ^ m) = x * (1 - x\<^sup>2 / 6 * (1 - x\<^sup>2 / 20 * (1 - x\<^sup>2 / 42 * (1 - x\<^sup>2 / 72 * (1 - x\<^sup>2 / 110 * (1 - x\<^sup>2 / 156 * (1 - x\<^sup>2 / 210 * (1 - x\<^sup>2 / 272 * (1 - x\<^sup>2 / 342 * (1 - x\<^sup>2 / 420 * (1 - x\<^sup>2 / 506)))))))))))"
  by (simp add: eval_nat_numeral sum.lessThan_Suc cos_coeff_Suc sin_coeff_Suc algebra_simps)

lemma cos_24:
  fixes x :: real
  shows "\<bar>cos x - (1 - x\<^sup>2 / 2 * (1 - x\<^sup>2 / 12 * (1 - x\<^sup>2 / 30 * (1 - x\<^sup>2 / 56 * (1 - x\<^sup>2 / 90 * (1 - x\<^sup>2 / 132 * (1 - x\<^sup>2 / 182 * (1 - x\<^sup>2 / 240 * (1 - x\<^sup>2 / 306 * (1 - x\<^sup>2 / 380 * (1 - x\<^sup>2 / 462)))))))))))\<bar> \<le> \<bar>x\<bar> ^ 24 / 620448401733239439360000"
  using cos_taylor [of x 24] unfolding cos_sum_24 by (simp add: fact_numeral)

lemma sin_24:
  fixes x :: real
  shows "\<bar>sin x - x * (1 - x\<^sup>2 / 6 * (1 - x\<^sup>2 / 20 * (1 - x\<^sup>2 / 42 * (1 - x\<^sup>2 / 72 * (1 - x\<^sup>2 / 110 * (1 - x\<^sup>2 / 156 * (1 - x\<^sup>2 / 210 * (1 - x\<^sup>2 / 272 * (1 - x\<^sup>2 / 342 * (1 - x\<^sup>2 / 420 * (1 - x\<^sup>2 / 506)))))))))))\<bar> \<le> \<bar>x\<bar> ^ 24 / 620448401733239439360000"
  using sin_taylor [of x 24] unfolding sin_sum_24 by (simp add: fact_numeral)

lemma approx_upper:
  fixes v :: real
  assumes "\<bar>v - p\<bar> \<le> e" "p + e \<le> u"
  shows "v \<le> u"
  using assms by linarith

lemma approx_lower:
  fixes v :: real
  assumes "\<bar>v - p\<bar> \<le> e" "l \<le> p - e"
  shows "l \<le> v"
  using assms by linarith






section \<open>The bounding box of the heart points\<close>

























lemma heart_points_beautiful_affine:
  "heart_points_beautiful sz =
     map (\<lambda>t. (real_of_int (sz div 2) + heart_x (real_of_int t / 100) * (real_of_int (sz div 3) / 20),
               real_of_int (sz div 2) + heart_y (real_of_int t / 100) * (real_of_int (sz div 3) / 20)))
       (range3 0 628 5)"
  by (simp add: heart_points_beautiful_def Let_def)







section \<open>The sign of the heart's ordinate along the sample points\<close>

lemma cos_25_16: "0 < cos (25 / 16 :: real)"
proof -
  have "1 / 1000 \<le> cos (25 / 16 :: real)"
    by (rule approx_lower [OF cos_24]) (simp add: power2_eq_square power_divide)
  then show ?thesis
    by linarith
qed

lemma pi_gt_25_8: "25 / 8 < pi"
proof (rule ccontr)
  assume "\<not> 25 / 8 < pi"
  then have a: "pi / 2 \<le> 25 / 16"
    by simp
  have "25 / 16 \<le> pi"
    using pi_ge_two by linarith
  then have "cos (25 / 16) \<le> cos (pi / 2)"
    using a by (intro cos_monotone_0_pi_le) simp_all
  then show False
    using cos_25_16 by simp
qed

lemma cos_175: "- 1 / 5 \<le> cos (7 / 4 :: real)"
  by (rule approx_lower [OF cos_24]) (simp add: power2_eq_square power_divide)

lemma cos_180_le: "cos (9 / 5 :: real) \<le> - 22 / 100"
  by (rule approx_upper [OF cos_24]) (simp add: power2_eq_square power_divide)

lemma cos_180_ge: "- 2273 / 10000 \<le> cos (9 / 5 :: real)"
  by (rule approx_lower [OF cos_24]) (simp add: power2_eq_square power_divide)

lemma cos_185: "cos (37 / 20 :: real) \<le> - 27 / 100"
  by (rule approx_upper [OF cos_24]) (simp add: power2_eq_square power_divide)

lemma cos_450: "cos (9 / 2 :: real) \<le> - 2107 / 10000"
  by (rule approx_upper [OF cos_24]) (simp add: power2_eq_square power_divide)

lemma cos_455: "- 1 / 5 \<le> cos (91 / 20 :: real)"
  by (rule approx_lower [OF cos_24]) (simp add: power2_eq_square power_divide)

lemma sin_175: "9 / 10 \<le> sin (7 / 4 :: real)"
  by (rule approx_lower [OF sin_24]) (simp add: power2_eq_square power_divide)

lemma sin_180: "9 / 10 \<le> sin (9 / 5 :: real)"
  by (rule approx_lower [OF sin_24]) (simp add: power2_eq_square power_divide)

lemma sin_185: "9 / 10 \<le> sin (37 / 20 :: real)"
  by (rule approx_lower [OF sin_24]) (simp add: power2_eq_square power_divide)

lemma sin_205: "6 / 10 \<le> sin (41 / 20 :: real)"
  by (rule approx_lower [OF sin_24]) (simp add: power2_eq_square power_divide)

lemma sin_450: "sin (9 / 2 :: real) \<le> - 9 / 10"
  by (rule approx_upper [OF sin_24]) (simp add: power2_eq_square power_divide)

lemma sin_455: "sin (91 / 20 :: real) \<le> - 9 / 10"
  by (rule approx_upper [OF sin_24]) (simp add: power2_eq_square power_divide)

text \<open>Cosine on the arcs between the sample points.\<close>

lemma cos_upper_arc:
  fixes t :: real
  assumes "0 \<le> t" and "t \<le> b" and "b \<le> pi"
  shows "cos b \<le> cos t"
  using assms by (intro cos_monotone_0_pi_le) simp_all

lemma cos_lower_arc:
  fixes t :: real
  assumes "a \<le> t" and "t \<le> 2 * pi" and "pi \<le> a"
  shows "cos a \<le> cos t"
proof -
  have "cos (2 * pi - a) \<le> cos (2 * pi - t)"
    using assms by (intro cos_monotone_0_pi_le) simp_all
  then show ?thesis
    by (simp add: cos_2pi_minus)
qed

lemma cos_middle_arc:
  fixes t :: real
  assumes "a \<le> t" and "t \<le> b" and "0 \<le> a" and "a \<le> pi" and "pi \<le> b" and "b \<le> 2 * pi"
  shows "cos t \<le> max (cos a) (cos b)"
proof (cases "t \<le> pi")
  case True
  then have "cos t \<le> cos a"
    using assms by (intro cos_monotone_0_pi_le) simp_all
  then show ?thesis
    by simp
next
  case False
  then have "cos (2 * pi - t) \<le> cos (2 * pi - b)"
    using assms by (intro cos_monotone_0_pi_le) simp_all
  then show ?thesis
    by (simp add: cos_2pi_minus)
qed

lemma pi_bounds: "25 / 8 < pi" "pi < 4"
  using pi_gt_25_8 pi_less_4 by simp_all

lemma cos_early:
  fixes t :: real
  assumes "0 \<le> t" and "t \<le> 7 / 4"
  shows "- 1 / 5 \<le> cos t"
  using cos_upper_arc [OF assms, of ] cos_175 pi_bounds by linarith

lemma cos_late:
  fixes t :: real
  assumes "91 / 20 \<le> t" and "t \<le> 25 / 4"
  shows "- 1 / 5 \<le> cos t"
proof -
  have "cos (91 / 20) \<le> cos t"
    using assms pi_bounds by (intro cos_lower_arc) simp_all
  then show ?thesis
    using cos_455 by linarith
qed

lemma cos_middle:
  fixes t :: real
  assumes "9 / 5 \<le> t" and "t \<le> 9 / 2"
  shows "cos t \<le> - 2107 / 10000"
proof -
  have "cos t \<le> max (cos (9 / 5)) (cos (9 / 2))"
    using assms pi_bounds by (intro cos_middle_arc) simp_all
  then show ?thesis
    using cos_180_le cos_450 by linarith
qed

lemma cos_before_180:
  fixes t :: real
  assumes "0 \<le> t" and "t \<le> 9 / 5"
  shows "- 2273 / 10000 \<le> cos t"
  using cos_upper_arc [OF assms] cos_180_ge pi_bounds by linarith

lemma cos_after_185:
  fixes t :: real
  assumes "37 / 20 \<le> t" and "t \<le> 41 / 20"
  shows "cos t \<le> - 27 / 100"
proof -
  have "cos t \<le> cos (37 / 20)"
    using assms pi_bounds by (intro cos_monotone_0_pi_le) simp_all
  then show ?thesis
    using cos_185 by linarith
qed

text \<open>The sign of the ordinate.\<close>

lemma heart_poly_square:
  fixes c :: real
  shows "8 * c ^ 4 + 8 * c ^ 3 + 2 * c ^ 2 - 19 * c - 4 = 2 * (c * (2 * c + 1))\<^sup>2 - 19 * c - 4"
  by (simp add: algebra_simps power2_eq_square power4_eq_xxxx power3_eq_cube)

lemma heart_y_pos:
  assumes "cos t \<le> - 2107 / 10000"
  shows "0 < heart_y t"
proof -
  have "0 \<le> 2 * (cos t * (2 * cos t + 1))\<^sup>2"
    by simp
  then show ?thesis
    unfolding heart_y_poly heart_poly_square using assms by linarith
qed

lemma heart_y_high:
  assumes "cos t \<le> - 27 / 100"
  shows "1 / 2 < heart_y t"
proof -
  have "0 \<le> 2 * (cos t * (2 * cos t + 1))\<^sup>2"
    by simp
  then show ?thesis
    unfolding heart_y_poly heart_poly_square using assms by linarith
qed

lemma heart_poly_small:
  fixes c :: real
  assumes "- m \<le> c" and "c \<le> 1" and "0 \<le> m" and "m \<le> 1 / 4"
  shows "8 * c ^ 4 + 8 * c ^ 3 + 2 * c ^ 2 - 19 * c - 4 \<le> 8 * m ^ 4 + 2 * m ^ 2 + 19 * m - 4"
proof (cases "0 \<le> c")
  case True
  have "c ^ 4 \<le> c" "c ^ 3 \<le> c" "c ^ 2 \<le> c"
    using True assms(2) by (simp_all add: power_le_one_iff mult_left_le power2_eq_square
        power3_eq_cube power4_eq_xxxx mult_le_one mult_left_le_one_le)
  then have "8 * c ^ 4 + 8 * c ^ 3 + 2 * c ^ 2 - 19 * c - 4 \<le> - c - 4"
    by linarith
  moreover have "0 \<le> 8 * m ^ 4 + 2 * m ^ 2 + 19 * m"
    using assms(3) by simp
  ultimately show ?thesis
    using True by linarith
next
  case False
  then have c: "c \<le> 0" "\<bar>c\<bar> \<le> m"
    using assms(1) by simp_all
  have "\<bar>c\<bar> ^ 4 \<le> m ^ 4" "\<bar>c\<bar> ^ 2 \<le> m ^ 2"
    using c(2) by (intro power_mono; simp)+
  then have "c ^ 4 \<le> m ^ 4" "c ^ 2 \<le> m ^ 2"
    by (simp_all add: power_abs [symmetric])
  moreover have "c ^ 3 \<le> 0"
    using c(1) by (simp add: power3_eq_cube mult_nonneg_nonpos mult_nonpos_nonneg zero_le_mult_iff mult_le_0_iff)
  ultimately show ?thesis
    using assms(1) by linarith
qed

lemma heart_y_neg:
  assumes "- 1 / 5 \<le> cos t"
  shows "heart_y t \<le> 0"
proof -
  have "8 * cos t ^ 4 + 8 * cos t ^ 3 + 2 * cos t ^ 2 - 19 * cos t - 4
      \<le> 8 * (1 / 5) ^ 4 + 2 * (1 / 5) ^ 2 + 19 * (1 / 5) - 4"
    using assms by (intro heart_poly_small) simp_all
  then show ?thesis
    unfolding heart_y_poly by (simp add: power_divide)
qed

lemma heart_y_low:
  assumes "- 2273 / 10000 \<le> cos t"
  shows "heart_y t \<le> 1 / 2"
proof -
  have "8 * cos t ^ 4 + 8 * cos t ^ 3 + 2 * cos t ^ 2 - 19 * cos t - 4
      \<le> 8 * (2273 / 10000) ^ 4 + 2 * (2273 / 10000) ^ 2 + 19 * (2273 / 10000) - 4"
    using assms by (intro heart_poly_small) simp_all
  then show ?thesis
    unfolding heart_y_poly by (simp add: power_divide)
qed

section \<open>Counting the crossings of a scan line\<close>

lemma edges_map_upt:
  "edges (map f [0..<n]) = map (\<lambda>k. (f k, f (Suc k mod n))) [0..<n]"
proof (rule nth_equalityI)
  show "length (edges (map f [0..<n])) = length (map (\<lambda>k. (f k, f (Suc k mod n))) [0..<n])"
    by (simp add: edges_def)
next
  fix i
  assume "i < length (edges (map f [0..<n]))"
  then have i: "i < n"
    by (simp add: edges_def)
  then have m: "Suc i mod n < n"
    by simp
  have "rotate1 (map f [0..<n]) ! i = map f [0..<n] ! (Suc i mod length (map f [0..<n]))"
    using i by (intro nth_rotate1) simp
  then have "rotate1 (map f [0..<n]) ! i = f (Suc i mod n)"
    using m by simp
  then show "edges (map f [0..<n]) ! i = map (\<lambda>k. (f k, f (Suc k mod n))) [0..<n] ! i"
    using i by (simp add: edges_def)
qed

lemma count_upt: "length (filter P [0..<n]) = card {k. k < n \<and> P k}"
proof -
  have "{i. i < n \<and> P ([0..<n] ! i)} = {k. k < n \<and> P k}"
    by auto
  then show ?thesis
    by (simp add: length_filter_conv_card)
qed

lemma count_single:
  assumes "i < n" and "\<And>k. k < n \<Longrightarrow> P k \<longleftrightarrow> k = i"
  shows "length (filter P [0..<n]) = 1"
proof -
  have "{k. k < n \<and> P k} = {i}"
    using assms by auto
  then show ?thesis
    by (simp add: count_upt)
qed

lemma count_pair:
  assumes "i < n" and "j < n" and "i \<noteq> j" and "\<And>k. k < n \<Longrightarrow> P k \<longleftrightarrow> k = i \<or> k = j"
  shows "length (filter P [0..<n]) = 2"
proof -
  have "{k. k < n \<and> P k} = {i, j}"
    using assms by auto
  then show ?thesis
    using assms(3) by (simp add: count_upt)
qed

lemma polygon_count:
  "geom_polygon (map f [0..<n]) p =
     odd (length (filter (\<lambda>k. crossing p (f k, f (Suc k mod n))) [0..<n]))"
  by (simp add: geom_polygon_def edges_map_upt filter_map comp_def)

lemma crossing_low:
  assumes "y1 \<le> real_of_int y" and "y2 \<le> real_of_int y"
  shows "\<not> crossing (x, y) ((x1, y1), (x2, y2))"
  using assms by (simp add: crossing_def)

lemma crossing_high:
  assumes "real_of_int y < y1" and "real_of_int y < y2"
  shows "\<not> crossing (x, y) ((x1, y1), (x2, y2))"
  using assms by (simp add: crossing_def)

lemma between:
  fixes x x1 x2 y y1 y2 :: real
  assumes "y1 \<le> y" and "y < y2" and "x < x1" and "x < x2"
  shows "x < x1 + (y - y1) * (x2 - x1) / (y2 - y1)"
proof -
  have d: "0 < y2 - y1"
    using assms by simp
  have "(x - x1) * (y2 - y) < 0"
    using assms by (simp add: mult_less_0_iff)
  moreover have "0 \<le> (y - y1) * (x2 - x)"
    using assms by simp
  moreover have "(x - x1) * (y2 - y1) - (y - y1) * (x2 - x1) = (x - x1) * (y2 - y) - (y - y1) * (x2 - x)"
    by (simp add: algebra_simps)
  ultimately have "(x - x1) * (y2 - y1) < (y - y1) * (x2 - x1)"
    by linarith
  then have "x - x1 < (y - y1) * (x2 - x1) / (y2 - y1)"
    using d by (simp add: pos_less_divide_eq)
  then show ?thesis
    by simp
qed

lemma not_between:
  fixes x x1 x2 y y1 y2 :: real
  assumes "y1 \<le> y" and "y < y2" and "x1 \<le> x" and "x2 \<le> x"
  shows "x1 + (y - y1) * (x2 - x1) / (y2 - y1) \<le> x"
proof -
  have d: "0 < y2 - y1"
    using assms by simp
  have "0 \<le> (x - x1) * (y2 - y)"
    using assms by simp
  moreover have "(y - y1) * (x2 - x) \<le> 0"
    using assms by (simp add: mult_le_0_iff)
  moreover have "(x - x1) * (y2 - y1) - (y - y1) * (x2 - x1) = (x - x1) * (y2 - y) - (y - y1) * (x2 - x)"
    by (simp add: algebra_simps)
  ultimately have "(y - y1) * (x2 - x1) \<le> (x - x1) * (y2 - y1)"
    by linarith
  then have "(y - y1) * (x2 - x1) / (y2 - y1) \<le> x - x1"
    using d by (simp add: pos_divide_le_eq)
  then show ?thesis
    by simp
qed

lemma crossing_up_right:
  assumes "y1 \<le> real_of_int y" and "real_of_int y < y2"
    and "real_of_int x < x1" and "real_of_int x < x2"
  shows "crossing (x, y) ((x1, y1), (x2, y2))"
  using assms between [OF assms] by (simp add: crossing_def)

lemma crossing_down_left:
  assumes "y2 \<le> real_of_int y" and "real_of_int y < y1"
    and "x1 \<le> real_of_int x" and "x2 \<le> real_of_int x"
  shows "\<not> crossing (x, y) ((x1, y1), (x2, y2))"
proof -
  have "x2 + (real_of_int y - y2) * (x1 - x2) / (y1 - y2) \<le> real_of_int x"
    using assms by (intro not_between) simp_all
  moreover have "x2 + (real_of_int y - y2) * (x1 - x2) / (y1 - y2)
      = x1 + (real_of_int y - y1) * (x2 - x1) / (y2 - y1)"
    using assms(1,2) by (simp add: field_simps)
  ultimately show ?thesis
    by (simp add: crossing_def)
qed

lemma crossing_chord:
  fixes a b :: real
  assumes "4 < a" and "1 < b" and "b \<le> 34"
  shows "crossing (60, 60) ((59 + a, 59 + b), (59, 49))"
proof -
  have "(b - 1) * a < (a - 1) * (10 + b)"
    using assms by (simp add: algebra_simps)
  then have "(b - 1) * a / (10 + b) < a - 1"
    using assms by (simp add: pos_divide_less_eq)
  moreover have "(60 - (59 + b)) * (59 - (59 + a)) / (49 - (59 + b)) = - ((b - 1) * a / (10 + b))"
    using assms by (simp add: field_simps)
  ultimately have "60 < 59 + a + (60 - (59 + b)) * (59 - (59 + a)) / (49 - (59 + b))"
    by linarith
  then show ?thesis
    using assms by (simp add: crossing_def)
qed

section \<open>The heart and its highlight at size 120\<close>

lemma range3_heart: "range3 0 628 5 = map (\<lambda>k. int k * 5) [0..<126]"
  by (simp add: range3_def)

lemma heart_points_120:
  "heart_points_beautiful 120 =
     map (\<lambda>k. (60 + heart_x (real k / 20) * 2, 60 + heart_y (real k / 20) * 2)) [0..<126]"
  by (simp add: heart_points_beautiful_affine range3_heart comp_def)

lemma heart_y_early:
  assumes "k \<le> 35"
  shows "heart_y (real k / 20) \<le> 0"
proof -
  have "real k \<le> 35"
    using assms by simp
  then show ?thesis
    by (intro heart_y_neg cos_early) simp_all
qed

lemma heart_y_middle:
  assumes "36 \<le> k" and "k \<le> 90"
  shows "0 < heart_y (real k / 20)"
proof -
  have "36 \<le> real k" "real k \<le> 90"
    using assms by simp_all
  then show ?thesis
    by (intro heart_y_pos cos_middle) simp_all
qed

lemma heart_y_late:
  assumes "91 \<le> k" and "k \<le> 125"
  shows "heart_y (real k / 20) \<le> 0"
proof -
  have "91 \<le> real k" "real k \<le> 125"
    using assms by simp_all
  then show ?thesis
    by (intro heart_y_neg cos_late) simp_all
qed

lemma heart_y_below_half:
  assumes "k \<le> 36"
  shows "heart_y (real k / 20) \<le> 1 / 2"
proof -
  have "real k \<le> 36"
    using assms by simp
  then show ?thesis
    by (intro heart_y_low cos_before_180) simp_all
qed

lemma heart_y_above_half:
  assumes "37 \<le> k" and "k \<le> 41"
  shows "1 / 2 < heart_y (real k / 20)"
proof -
  have "37 \<le> real k" "real k \<le> 41"
    using assms by simp_all
  then show ?thesis
    by (intro heart_y_high cos_after_185) simp_all
qed

lemma heart_x_from_sin:
  assumes "s \<le> sin t" and "0 \<le> s"
  shows "16 * s ^ 3 \<le> heart_x t"
proof -
  have "s ^ 3 \<le> sin t ^ 3"
    using assms by (intro power_mono)
  then show ?thesis
    by (simp add: heart_x_def)
qed

lemma heart_x_right:
  "1 < heart_x (7 / 4)" "1 < heart_x (9 / 5)" "1 < heart_x (37 / 20)" "3 \<le> heart_x (41 / 20)"
  using heart_x_from_sin [OF sin_175] heart_x_from_sin [OF sin_180]
    heart_x_from_sin [OF sin_185] heart_x_from_sin [OF sin_205]
  by (simp_all add: power_divide)

lemma heart_x_left: "heart_x (9 / 2) < 0" "heart_x (91 / 20) < 0"
proof -
  have "sin (9 / 2 :: real) ^ 3 < 0" "sin (91 / 20 :: real) ^ 3 < 0"
    using sin_450 sin_455 by (simp_all add: power3_eq_cube mult_less_0_iff zero_less_mult_iff)
  then show "heart_x (9 / 2) < 0" "heart_x (91 / 20) < 0"
    by (simp_all add: heart_x_def)
qed

lemma heart_start: "heart_x 0 = 0" "heart_y 0 = - 5"
  by (simp_all add: heart_x_def heart_y_def)

lemma heart_crossings:
  assumes "k < 126"
  shows "crossing (60, 60)
      ((60 + heart_x (real k / 20) * 2, 60 + heart_y (real k / 20) * 2),
       (60 + heart_x (real (Suc k mod 126) / 20) * 2, 60 + heart_y (real (Suc k mod 126) / 20) * 2))
     \<longleftrightarrow> k = 35"
proof -
  consider "k < 35" | "k = 35" | "36 \<le> k" "k < 90" | "k = 90" | "91 \<le> k" "k < 125" | "k = 125"
    using assms by linarith
  then show ?thesis
  proof cases
    case 1
    then have "heart_y (real k / 20) \<le> 0" "heart_y (real (Suc k) / 20) \<le> 0"
      by (intro heart_y_early; simp)+
    then have "\<not> crossing (60, 60)
      ((60 + heart_x (real k / 20) * 2, 60 + heart_y (real k / 20) * 2),
       (60 + heart_x (real (Suc k) / 20) * 2, 60 + heart_y (real (Suc k) / 20) * 2))"
      by (intro crossing_low) simp_all
    then show ?thesis
      using 1 by simp
  next
    case 2
    have "heart_y (real (35::nat) / 20) \<le> 0" "0 < heart_y (real (36::nat) / 20)"
      by (intro heart_y_early heart_y_middle; simp)+
    then have "crossing (60, 60)
      ((60 + heart_x (7 / 4) * 2, 60 + heart_y (7 / 4) * 2),
       (60 + heart_x (9 / 5) * 2, 60 + heart_y (9 / 5) * 2))"
      using heart_x_right by (intro crossing_up_right) simp_all
    then show ?thesis
      using 2 by simp
  next
    case 3
    then have "0 < heart_y (real k / 20)" "0 < heart_y (real (Suc k) / 20)"
      by (intro heart_y_middle; simp)+
    then have "\<not> crossing (60, 60)
      ((60 + heart_x (real k / 20) * 2, 60 + heart_y (real k / 20) * 2),
       (60 + heart_x (real (Suc k) / 20) * 2, 60 + heart_y (real (Suc k) / 20) * 2))"
      by (intro crossing_high) simp_all
    then show ?thesis
      using 3 by simp
  next
    case 4
    have "0 < heart_y (real (90::nat) / 20)" "heart_y (real (91::nat) / 20) \<le> 0"
      by (intro heart_y_middle heart_y_late; simp)+
    then have "\<not> crossing (60, 60)
      ((60 + heart_x (9 / 2) * 2, 60 + heart_y (9 / 2) * 2),
       (60 + heart_x (91 / 20) * 2, 60 + heart_y (91 / 20) * 2))"
      using heart_x_left by (intro crossing_down_left) simp_all
    then show ?thesis
      using 4 by simp
  next
    case 5
    then have "heart_y (real k / 20) \<le> 0" "heart_y (real (Suc k) / 20) \<le> 0"
      by (intro heart_y_late; simp)+
    then have "\<not> crossing (60, 60)
      ((60 + heart_x (real k / 20) * 2, 60 + heart_y (real k / 20) * 2),
       (60 + heart_x (real (Suc k) / 20) * 2, 60 + heart_y (real (Suc k) / 20) * 2))"
      by (intro crossing_low) simp_all
    then show ?thesis
      using 5 by simp
  next
    case 6
    have "heart_y (real (125::nat) / 20) \<le> 0"
      by (intro heart_y_late) simp_all
    then have "\<not> crossing (60, 60)
      ((60 + heart_x (25 / 4) * 2, 60 + heart_y (25 / 4) * 2),
       (60 + heart_x 0 * 2, 60 + heart_y 0 * 2))"
      by (intro crossing_low) (simp_all add: heart_start)
    then show ?thesis
      using 6 by simp
  qed
qed

lemma heart_covers_center: "geom_polygon (heart_points_beautiful 120) (60, 60)"
proof -
  have "length (filter (\<lambda>k. crossing (60, 60)
      ((60 + heart_x (real k / 20) * 2, 60 + heart_y (real k / 20) * 2),
       (60 + heart_x (real (Suc k mod 126) / 20) * 2, 60 + heart_y (real (Suc k mod 126) / 20) * 2)))
      [0..<126]) = 1"
    by (rule count_single [of 35]) (simp_all add: heart_crossings)
  then show ?thesis
    unfolding heart_points_120 polygon_count by simp
qed

lemma highlight_120:
  "map (\<lambda>(x, y). (x - 1, y - 1)) (take 42 (heart_points_beautiful 120)) =
     map (\<lambda>k. (59 + heart_x (real k / 20) * 2, 59 + heart_y (real k / 20) * 2)) [0..<42]"
  by (simp add: heart_points_120 take_map comp_def)

lemma highlight_crossings:
  assumes "k < 42"
  shows "crossing (60, 60)
      ((59 + heart_x (real k / 20) * 2, 59 + heart_y (real k / 20) * 2),
       (59 + heart_x (real (Suc k mod 42) / 20) * 2,
        59 + heart_y (real (Suc k mod 42) / 20) * 2))
     \<longleftrightarrow> k = 36 \<or> k = 41"
proof -
  consider "k < 36" | "k = 36" | "37 \<le> k" "k < 41" | "k = 41"
    using assms by linarith
  then show ?thesis
  proof cases
    case 1
    then have "heart_y (real k / 20) \<le> 1 / 2" "heart_y (real (Suc k) / 20) \<le> 1 / 2"
      by (intro heart_y_below_half; simp)+
    then have "\<not> crossing (60, 60)
      ((59 + heart_x (real k / 20) * 2, 59 + heart_y (real k / 20) * 2),
       (59 + heart_x (real (Suc k) / 20) * 2, 59 + heart_y (real (Suc k) / 20) * 2))"
      by (intro crossing_low) simp_all
    then show ?thesis
      using 1 by simp
  next
    case 2
    have "heart_y (real (36::nat) / 20) \<le> 1 / 2" "1 / 2 < heart_y (real (37::nat) / 20)"
      by (intro heart_y_below_half heart_y_above_half; simp)+
    then have "crossing (60, 60)
      ((59 + heart_x (9 / 5) * 2, 59 + heart_y (9 / 5) * 2),
       (59 + heart_x (37 / 20) * 2, 59 + heart_y (37 / 20) * 2))"
      using heart_x_right by (intro crossing_up_right) simp_all
    then show ?thesis
      using 2 by simp
  next
    case 3
    then have "1 / 2 < heart_y (real k / 20)" "1 / 2 < heart_y (real (Suc k) / 20)"
      by (intro heart_y_above_half; simp)+
    then have "\<not> crossing (60, 60)
      ((59 + heart_x (real k / 20) * 2, 59 + heart_y (real k / 20) * 2),
       (59 + heart_x (real (Suc k) / 20) * 2, 59 + heart_y (real (Suc k) / 20) * 2))"
      by (intro crossing_high) simp_all
    then show ?thesis
      using 3 by simp
  next
    case 4
    have h: "1 / 2 < heart_y (real (41::nat) / 20)"
      by (intro heart_y_above_half) simp_all
    have "crossing (60, 60)
      ((59 + heart_x (41 / 20) * 2, 59 + heart_y (41 / 20) * 2), (59, 49))"
      using h heart_x_right(4) heart_y_le [of "41 / 20"] by (intro crossing_chord) simp_all
    then show ?thesis
      using 4 by (simp add: heart_start)
  qed
qed

lemma highlight_misses_center:
  "\<not> geom_polygon (map (\<lambda>(x, y). (x - 1, y - 1)) (take 42 (heart_points_beautiful 120))) (60, 60)"
proof -
  have "length (filter (\<lambda>k. crossing (60, 60)
      ((59 + heart_x (real k / 20) * 2, 59 + heart_y (real k / 20) * 2),
       (59 + heart_x (real (Suc k mod 42) / 20) * 2,
        59 + heart_y (real (Suc k mod 42) / 20) * 2)))
      [0..<42]) = 2"
    by (rule count_pair [of 36 _ 41]) (simp_all add: highlight_crossings)
  then show ?thesis
    unfolding highlight_120 polygon_count by simp
qed

section \<open>The cells of the size 120 scenario\<close>

lemma heart_points_nonempty: "heart_points_beautiful sz \<noteq> []"
proof
  assume "heart_points_beautiful sz = []"
  then have "length (heart_points_beautiful sz) = 0"
    by (simp only: list.size)
  then show False
    by simp
qed

lemma heart_beautiful_120:
  "heart_beautiful R img 120 =
     ebind (draw_polygon R img (map (\<lambda>(x, y). (x + 2, y + 2)) (heart_points_beautiful 120))
              [200, 200, 200]) (\<lambda>a.
     ebind (draw_polygon R a (heart_points_beautiful 120) heart_color) (\<lambda>b.
     draw_polygon R b (map (\<lambda>(x, y). (x - 1, y - 1)) (take 42 (heart_points_beautiful 120)))
       [82, 229, 119]))"
  by (simp add: heart_beautiful_def Let_def heart_points_nonempty)

lemma draw_polygon_rgb:
  assumes "renders sz (Inr img)" and "2 \<le> length pts"
    and "0 \<le> r" "r \<le> 255" "0 \<le> g" "g \<le> 255" "0 \<le> b" "b \<le> 255"
  shows "draw_polygon geometric img pts [r, g, b] = Inr (paint img (geom_polygon pts) (Rgb r g b))"
    and "renders sz (Inr (paint img (geom_polygon pts) (Rgb r g b)))"
proof -
  have m: "mode img = ModeRGB"
    using assms(1) by (simp add: wf_rgb_def)
  show "draw_polygon geometric img pts [r, g, b] = Inr (paint img (geom_polygon pts) (Rgb r g b))"
    using assms(2-8) by (simp add: draw_polygon_def m)
  show "renders sz (Inr (paint img (geom_polygon pts) (Rgb r g b)))"
    using assms(1) by (simp add: wf_rgb_paint)
qed

lemma heart_center_120:
  assumes "renders 120 (Inr img)"
  shows "\<exists>im. heart_beautiful geometric img 120 = Inr im \<and> renders 120 (Inr im) \<and>
           px im (60, 60) = Some (Rgb 52 199 89)"
proof -
  let ?sh = "map (\<lambda>(x, y). (x + 2, y + 2)) (heart_points_beautiful 120)"
  let ?hl = "map (\<lambda>(x, y). (x - 1, y - 1)) (take 42 (heart_points_beautiful 120))"
  let ?a = "paint img (geom_polygon ?sh) (Rgb 200 200 200)"
  let ?b = "paint ?a (geom_polygon (heart_points_beautiful 120)) (Rgb 52 199 89)"
  let ?c = "paint ?b (geom_polygon ?hl) (Rgb 82 229 119)"
  have n: "2 \<le> length ?sh" "2 \<le> length (heart_points_beautiful 120)" "2 \<le> length ?hl"
    by simp_all
  have a: "draw_polygon geometric img ?sh [200, 200, 200] = Inr ?a" "renders 120 (Inr ?a)"
    by (rule draw_polygon_rgb [OF assms n(1)]; simp)+
  have b: "draw_polygon geometric ?a (heart_points_beautiful 120) [52, 199, 89] = Inr ?b"
    "renders 120 (Inr ?b)"
    by (rule draw_polygon_rgb [OF a(2) n(2)]; simp)+
  have c: "draw_polygon geometric ?b ?hl [82, 229, 119] = Inr ?c" "renders 120 (Inr ?c)"
    by (rule draw_polygon_rgb [OF b(2) n(3)]; simp)+
  have w: "width img = 120" "height img = 120"
    using assms by simp_all
  have "px ?c (60, 60) = Some (Rgb 52 199 89)"
    using heart_covers_center highlight_misses_center by (simp add: px_paint w inside_def)
  moreover have "heart_beautiful geometric img 120 = Inr ?c"
    unfolding heart_beautiful_120 heart_color_def a(1) ebind_Inr b(1) c(1) ..
  ultimately show ?thesis
    using c(2) by blast
qed

lemma center_beautiful_120:
  "pixel_at (render_beautiful_app_icon geometric 120) (60, 60) = Inr (Rgb 52 199 89)"
proof -
  have z: "(0::int) \<le> 120" "(120::int) < 2 ^ 31"
    by simp_all
  have l: "length [255, 255, 255 :: int] = 3 \<or> length [255, 255, 255 :: int] = 4"
    by simp
  obtain a where a: "Image_new ModeRGB (120, 120) [255, 255, 255] = Inr a" "renders 120 (Inr a)"
    using renders_split [OF renders_new [OF z l]] by blast
  obtain b where b: "background_beautiful a 120 = Inr b" "renders 120 (Inr b)"
    using renders_split [OF renders_background_beautiful [OF a(2)]] by blast
  obtain c where c: "corners_beautiful geometric b 120 = Inr c" "renders 120 (Inr c)"
    using renders_split [OF renders_corners_beautiful [OF b(2) z]] by blast
  obtain d where d: "heart_beautiful geometric c 120 = Inr d" "renders 120 (Inr d)"
      "px d (60, 60) = Some (Rgb 52 199 89)"
    using heart_center_120 [OF c(2)] by blast
  have k: "keeps 120 (60, 60) d (ebind (gear_beautiful geometric d 120) (\<lambda>final_img.
     ebind (plus_beautiful geometric final_img 120) (\<lambda>final_img.
     dots_beautiful geometric final_img 120)))"
  proof (intro keeps_ebind keeps_gear_beautiful [OF d(2) z(1)] keeps_plus_beautiful [OF _ z(1)]
      keeps_dots)
    show "\<not> geom_ellipse (dot_box 120 i) (60, 60)" for i
      by (rule dot_clear_inner) simp
  qed (simp_all add: geom_ellipse_def rectangle_cov_def Let_def)
  have "pixel_at (ebind (gear_beautiful geometric d 120) (\<lambda>final_img.
     ebind (plus_beautiful geometric final_img 120) (\<lambda>final_img.
     dots_beautiful geometric final_img 120))) (60, 60) = Inr (Rgb 52 199 89)"
    by (rule pixel_at_keeps [OF k d(3)])
  then show ?thesis
    by (simp add: render_beautiful_app_icon_def a(1) b(1) c(1) d(1))
qed

lemma corners_beautiful_120:
  "pixel_at (render_beautiful_app_icon geometric 120) (0, 0) = Inr (Rgb 248 249 250)"
  "pixel_at (render_beautiful_app_icon geometric 120) (119, 0) = Inr (Rgb 248 249 250)"
  "pixel_at (render_beautiful_app_icon geometric 120) (0, 119) = Inr (Rgb 248 249 250)"
  "pixel_at (render_beautiful_app_icon geometric 120) (119, 119) = Inr (Rgb 248 249 250)"
proof -
  have "pixel_at (render_beautiful_app_icon geometric 120) (0, 0) =
     Inr (if geom_rounded (0, 0, 120, 120) (120 div 8) (0, 0) then Rgb 255 255 255 else Rgb 248 249 250)"
  proof (rule beautiful_pixel [OF _ _ _ gradient_beautiful_120_0])
    show "\<not> geom_ellipse (dot_box 120 i) (0, 0)" for i
      by (rule dot_clear_outer) simp_all
  qed (simp_all add: inside_def geom_ellipse_def rectangle_cov_def Let_def)
  then show "pixel_at (render_beautiful_app_icon geometric 120) (0, 0) = Inr (Rgb 248 249 250)"
    by (simp add: geom_rounded_def Let_def)
  have "pixel_at (render_beautiful_app_icon geometric 120) (119, 0) =
     Inr (if geom_rounded (0, 0, 120, 120) (120 div 8) (119, 0) then Rgb 255 255 255 else Rgb 248 249 250)"
  proof (rule beautiful_pixel [OF _ _ _ gradient_beautiful_120_0])
    show "\<not> geom_ellipse (dot_box 120 i) (119, 0)" for i
      by (rule dot_clear_outer) simp_all
  qed (simp_all add: inside_def geom_ellipse_def rectangle_cov_def Let_def)
  then show "pixel_at (render_beautiful_app_icon geometric 120) (119, 0) = Inr (Rgb 248 249 250)"
    by (simp add: geom_rounded_def Let_def)
  have "pixel_at (render_beautiful_app_icon geometric 120) (0, 119) =
     Inr (if geom_rounded (0, 0, 120, 120) (120 div 8) (0, 119) then Rgb 229 242 229 else Rgb 248 249 250)"
  proof (rule beautiful_pixel [OF _ _ _ gradient_beautiful_120_119])
    show "\<not> geom_ellipse (dot_box 120 i) (0, 119)" for i
      by (rule dot_clear_outer) simp_all
  qed (simp_all add: inside_def geom_ellipse_def rectangle_cov_def Let_def)
  then show "pixel_at (render_beautiful_app_icon geometric 120) (0, 119) = Inr (Rgb 248 249 250)"
    by (simp add: geom_rounded_def Let_def)
  have "pixel_at (render_beautiful_app_icon geometric 120) (119, 119) =
     Inr (if geom_rounded (0, 0, 120, 120) (120 div 8) (119, 119) then Rgb 229 242 229 else Rgb 248 249 250)"
  proof (rule beautiful_pixel [OF _ _ _ gradient_beautiful_120_119])
    show "\<not> geom_ellipse (dot_box 120 i) (119, 119)" for i
      by (rule dot_clear_outer) simp_all
  qed (simp_all add: inside_def geom_ellipse_def rectangle_cov_def Let_def)
  then show "pixel_at (render_beautiful_app_icon geometric 120) (119, 119) = Inr (Rgb 248 249 250)"
    by (simp add: geom_rounded_def Let_def)
qed


section \<open>Size and mode of the result\<close>

text \<open>
  Claim C1. For every size of the catalog, each of the three render functions returns an
  image that is exactly that size in both directions, of mode \<open>RGB\<close>, with a cell for
  every point of the canvas and three bands in every cell: there is no alpha band.
  The rasterizer is arbitrary.
\<close>

theorem render_size_mode:
  assumes "sz \<in> set catalog"
  shows "(\<exists>img. render_app_icon R sz = Inr img \<and> width img = sz \<and> height img = sz \<and> wf_rgb img) \<and>
         (\<exists>img. render_solid_app_icon R sz = Inr img \<and> width img = sz \<and> height img = sz \<and> wf_rgb img) \<and>
         (\<exists>img. render_beautiful_app_icon R sz = Inr img \<and> width img = sz \<and> height img = sz \<and> wf_rgb img)"
proof -
  have "16 \<le> sz" "sz < 2 ^ 31"
    using assms by (auto simp: catalog_def)
  then have "renders sz (render_app_icon R sz)" "renders sz (render_solid_app_icon R sz)"
    "renders sz (render_beautiful_app_icon R sz)"
    by (simp_all add: renders_icons renders_solid renders_beautiful)
  then show ?thesis
    by (auto simp: renders_def split: sum.splits)
qed

theorem render_size_mode_witness:
  "(20::int) \<in> set catalog \<and>
   (\<exists>img. render_app_icon geometric 20 = Inr img \<and> width img = 20 \<and> height img = 20 \<and> wf_rgb img)"
proof -
  have h: "(20::int) \<in> set catalog"
    by (simp add: catalog_def)
  show ?thesis
    using h render_size_mode [OF h, of geometric] by simp
qed

section \<open>Sizes that are refused\<close>

text \<open>
  Claim C7 says that every non-positive size fails with an \<open>InvalidDimension\<close> error and
  that no positive size raises. The scripts check nothing themselves; what fails is the
  library. A positive size can fail: from \<open>2^31\<close> the first call, \<open>Image.new\<close>, raises
  \<open>OverflowError\<close>.
\<close>

theorem render_overflow_counterexample:
  "render_solid_app_icon geometric (2 ^ 31) = Inl OverflowError"
  by (simp add: render_overflow)

text \<open>
  Claim C7, amended. The functions of the three scripts, saving included, fail with
  \<open>ValueError\<close> for every non-positive size: a negative one at \<open>Image.new\<close>, size 0 when
  the empty image is saved (in the heart-and-plus style already at the first bar of the
  plus sign where the library insists on ordered boxes). From \<open>2^31\<close> they fail with
  \<open>OverflowError\<close>. Below that, every positive size succeeds in the solid and the
  heart-and-gear style; the heart-and-plus style succeeds from 16 on, and from 1 on where
  the library accepts a box with \<open>y1 < y0\<close>; where it does not, the sizes below 16 fail
  with \<open>ValueError\<close>.
\<close>

theorem create_errors:
  "(sz \<le> 0 \<longrightarrow> create_app_icon R sz path fs = Inl ValueError \<and>
       create_solid_app_icon R sz path fs = Inl ValueError \<and>
       create_beautiful_app_icon R sz path fs = Inl ValueError) \<and>
   (2 ^ 31 \<le> sz \<longrightarrow> create_app_icon R sz path fs = Inl OverflowError \<and>
       create_solid_app_icon R sz path fs = Inl OverflowError \<and>
       create_beautiful_app_icon R sz path fs = Inl OverflowError) \<and>
   (0 < sz \<and> sz < 2 ^ 31 \<longrightarrow> \<not> isl (create_solid_app_icon R sz path fs) \<and>
       \<not> isl (create_beautiful_app_icon R sz path fs)) \<and>
   (0 < sz \<and> sz < 2 ^ 31 \<and> (strict_boxes R \<longrightarrow> 16 \<le> sz) \<longrightarrow>
       \<not> isl (create_app_icon R sz path fs)) \<and>
   (strict_boxes R \<and> sz < 16 \<longrightarrow> create_app_icon R sz path fs = Inl ValueError)"
proof (intro conjI impI)
  assume "sz \<le> 0"
  then have z: "sz < 0 \<or> sz = 0"
    by linarith
  from z show "create_app_icon R sz path fs = Inl ValueError"
    by (rule disjE) (simp add: create_app_icon_def render_negative(1), simp add: create_zero(1))
  from z show "create_solid_app_icon R sz path fs = Inl ValueError"
    by (rule disjE)
      (simp add: create_solid_app_icon_def render_negative(2), simp add: create_zero(2))
  from z show "create_beautiful_app_icon R sz path fs = Inl ValueError"
    by (rule disjE)
      (simp add: create_beautiful_app_icon_def render_negative(3), simp add: create_zero(3))
next
  assume "2 ^ 31 \<le> sz"
  then show "create_app_icon R sz path fs = Inl OverflowError"
    "create_solid_app_icon R sz path fs = Inl OverflowError"
    "create_beautiful_app_icon R sz path fs = Inl OverflowError"
    by (simp_all add: create_app_icon_def create_solid_app_icon_def
          create_beautiful_app_icon_def render_overflow)
next
  assume "0 < sz \<and> sz < 2 ^ 31"
  then have b: "0 \<le> sz" "sz < 2 ^ 31" "sz \<noteq> 0"
    by simp_all
  show "\<not> isl (create_solid_app_icon R sz path fs)"
    unfolding create_solid_app_icon_def save_after [OF renders_solid [OF b(1,2)]]
    using b(3) by simp
  show "\<not> isl (create_beautiful_app_icon R sz path fs)"
    unfolding create_beautiful_app_icon_def save_after [OF renders_beautiful [OF b(1,2)]]
    using b(3) by simp
next
  assume a: "0 < sz \<and> sz < 2 ^ 31 \<and> (strict_boxes R \<longrightarrow> 16 \<le> sz)"
  then have b: "0 \<le> sz" "sz < 2 ^ 31" "sz \<noteq> 0"
    by simp_all
  have "renders sz (render_app_icon R sz)"
    using a by (intro renders_icons b) simp
  then show "\<not> isl (create_app_icon R sz path fs)"
    unfolding create_app_icon_def using b(3) by (simp add: save_after)
next
  assume a: "strict_boxes R \<and> sz < 16"
  show "create_app_icon R sz path fs = Inl ValueError"
  proof (cases "sz < 0")
    case True
    then show ?thesis
      by (simp add: create_app_icon_def render_negative)
  next
    case False
    then show ?thesis
      using a by (simp add: create_app_icon_def render_icons_strict)
  qed
qed

theorem create_errors_witness:
  "create_app_icon geometric (- 1) [] Map.empty = Inl ValueError \<and>
   create_solid_app_icon geometric 0 [] Map.empty = Inl ValueError \<and>
   create_beautiful_app_icon geometric (2 ^ 31) [] Map.empty = Inl OverflowError \<and>
   \<not> isl (create_solid_app_icon geometric 20 [] Map.empty) \<and>
   \<not> isl (create_app_icon geometric 20 [] Map.empty) \<and>
   strict_boxes geometric \<and>
   create_app_icon geometric 15 [] Map.empty = Inl ValueError"
proof -
  have g: "strict_boxes geometric"
    by (simp add: geometric_def)
  have "create_app_icon geometric (- 1) [] Map.empty = Inl ValueError"
    using create_errors [of "- 1" geometric "[]" Map.empty] by simp
  moreover have "create_solid_app_icon geometric 0 [] Map.empty = Inl ValueError"
    using create_errors [of 0 geometric "[]" Map.empty] by simp
  moreover have "create_beautiful_app_icon geometric (2 ^ 31) [] Map.empty = Inl OverflowError"
    using create_errors [of "2 ^ 31" geometric "[]" Map.empty] by simp
  moreover have "\<not> isl (create_solid_app_icon geometric 20 [] Map.empty)"
    "\<not> isl (create_app_icon geometric 20 [] Map.empty)"
    using create_errors [of 20 geometric "[]" Map.empty] by simp_all
  moreover have "create_app_icon geometric 15 [] Map.empty = Inl ValueError"
    using g create_errors [of 15 geometric "[]" Map.empty] by simp
  ultimately show ?thesis
    using g by simp
qed

section \<open>The data dots\<close>

text \<open>
  Claim C9. For every positive size, a cell of the canvas that one of the six data dots
  covers has exactly the heart colour (52, 199, 89) in the result of the beautiful style:
  the ink of the fill \<open>(52, 199, 89, 180)\<close> on an RGB image is the opaque triple, the
  fourth component is dropped and nothing is mixed with what lay beneath. There is a
  result for every size that \<open>Image.new\<close> accepts, that is below \<open>2^31\<close>.
\<close>

theorem dots_opaque:
  assumes "0 < sz" and "i \<in> set (range1 6)" and "inside sz sz p"
    and "ellipse_cov R (dot_box sz i) p"
  shows "getink ModeRGB dot_fill = Inr (Rgb 52 199 89) \<and>
         (\<forall>img. render_beautiful_app_icon R sz = Inr img \<longrightarrow> px img p = Some (Rgb 52 199 89)) \<and>
         (sz < 2 ^ 31 \<longrightarrow> (\<exists>img. render_beautiful_app_icon R sz = Inr img))"
proof (cases "sz < 2 ^ 31")
  case True
  obtain im where im: "renders sz (Inr im)"
      "render_beautiful_app_icon R sz = dots_beautiful R im sz"
    using render_beautiful_dots [of sz R] assms(1) True by auto
  obtain img where img: "dots_beautiful R im sz = Inr img"
      "\<And>p. px img p = (if inside sz sz p \<and> (\<exists>i\<in>set (range1 6). ellipse_cov R (dot_box sz i) p)
                      then Some (Rgb 52 199 89) else px im p)"
    unfolding dots_beautiful_def using dots_efold [OF im(1), of R "range1 6"] by blast
  have "px img p = Some (Rgb 52 199 89)"
    using assms(2,3,4) by (auto simp: img(2))
  then show ?thesis
    using im(2) img(1) getink_dot_fill by simp
next
  case False
  then show ?thesis
    using getink_dot_fill by (simp add: render_overflow)
qed

theorem dots_opaque_witness:
  "(0::int) < 120 \<and> (0::int) \<in> set (range1 6) \<and> inside 120 120 (119, 60) \<and>
   ellipse_cov geometric (dot_box 120 0) (119, 60) \<and>
   (\<exists>img. render_beautiful_app_icon geometric 120 = Inr img \<and>
      px img (119, 60) = Some (Rgb 52 199 89))"
proof -
  have a: "(0::int) \<in> set (range1 6)"
    by (simp add: range1_def)
  have b: "inside 120 120 (119, 60)"
    by (simp add: inside_def)
  have c: "ellipse_cov geometric (dot_box 120 0) (119, 60)"
    by (simp add: dot_box_120_0 geometric_def geom_ellipse_def Let_def)
  have "\<exists>img. render_beautiful_app_icon geometric 120 = Inr img"
    using dots_opaque [OF _ a b c] by simp
  then obtain img where i: "render_beautiful_app_icon geometric 120 = Inr img"
    by blast
  have "px img (119, 60) = Some (Rgb 52 199 89)"
    using dots_opaque [OF _ a b c] i by simp
  then show ?thesis
    using a b c i by simp
qed

section \<open>Totality and clipping\<close>

text \<open>
  Claim C10 says that rendering never raises for any positive size. From \<open>2^31\<close> the
  library cannot hold the size and \<open>Image.new\<close> raises \<open>OverflowError\<close>.
\<close>

theorem beautiful_overflow_counterexample:
  "render_beautiful_app_icon geometric (2 ^ 31) = Inl OverflowError"
  by (simp add: render_overflow)

text \<open>
  Claim C10, amended. For every positive size below \<open>2^31\<close> the beautiful style returns an
  image and raises nothing, whatever the rasterizer, and the script's function saves it.
  Shapes that reach beyond the canvas are clipped: the result has cells for the points of
  the canvas and no others. At size 20 the first data dot lies wholly to the right of the
  canvas.
\<close>

theorem beautiful_total:
  assumes "0 < sz" and "sz < 2 ^ 31"
  shows "\<exists>img. render_beautiful_app_icon R sz = Inr img \<and>
           create_beautiful_app_icon R sz output_path fs = Inr (fs(output_path \<mapsto> img)) \<and>
           (\<forall>p. (px img p = None) = (\<not> inside sz sz p))"
proof -
  have "renders sz (render_beautiful_app_icon R sz)"
    using assms by (simp add: renders_beautiful)
  then obtain img where "render_beautiful_app_icon R sz = Inr img" "wf_rgb img"
      "width img = sz" "height img = sz"
    by (cases "render_beautiful_app_icon R sz") auto
  then show ?thesis
    using assms(1) by (simp add: create_beautiful_app_icon_def save_def wf_rgb_def)
qed

theorem beautiful_total_witness:
  "(0::int) < 20 \<and> (20::int) < 2 ^ 31 \<and> dot_box 20 0 = (34, 8, 38, 12) \<and>
   (\<exists>img. render_beautiful_app_icon geometric 20 = Inr img \<and>
      px img (36, 10) = None \<and> px img (20, 10) = None)"
proof -
  have h: "(0::int) < 20" "(20::int) < 2 ^ 31"
    by simp_all
  have "\<exists>img. render_beautiful_app_icon geometric 20 = Inr img \<and>
      (\<forall>p. (px img p = None) = (\<not> inside 20 20 p))"
    using beautiful_total [OF h, of geometric "[]" Map.empty] by blast
  then obtain img where r: "render_beautiful_app_icon geometric 20 = Inr img"
    and n: "\<And>p. (px img p = None) = (\<not> inside 20 20 p)"
    by blast
  have "px img (36, 10) = None" "px img (20, 10) = None"
    by (simp_all add: n inside_def)
  then show ?thesis
    using r dot_box_20_0 by simp
qed


section \<open>The gradient formula\<close>

text \<open>
  Claim C2 says each channel of row \<open>y\<close> is \<open>start*(1-y/size) + end*(y/size)\<close> truncated.
  Read as arithmetic this fails: for size 20 and row 1 the green channel is
  \<open>199*(19/20) + 139*(1/20) = 196\<close>, but the floats give a value just below 196 and the
  code stores 195.
\<close>

theorem gradient_formula_counterexample:
  "gradient_icons 20 1 \<noteq> spec_gradient ends_icons 20 1"
proof -
  have "spec_gradient ends_icons 20 1 = [51, 196, 86]"
    by (simp add: spec_gradient_def ends_icons_def spec_channel_def py_int_def)
  then show ?thesis
    by (simp add: gradient_icons_20_1)
qed

text \<open>
  Claim C2, amended. For every positive size below \<open>2^31\<close> and every row, in all three
  styles, each channel of the row's colour is the exact value \<open>start*(1-y/size) + end*(y/size)\<close>
  truncated, except that it may be one less where the exact value is a whole number. The
  ends of the heart-and-gear style, which the script writes as factors, are 255 and
  (229.5, 242.25, 229.5).
\<close>

theorem gradient_float_trunc:
  assumes "0 < sz" and "sz < 2 ^ 31" and "0 \<le> y" and "y < sz"
  shows "list_all2 float_trunc (gradient_icons sz y)
           (map (\<lambda>(start, stop). spec_channel start stop sz y) ends_icons) \<and>
         list_all2 float_trunc (gradient_solid sz y)
           (map (\<lambda>(start, stop). spec_channel start stop sz y) ends_solid) \<and>
         list_all2 float_trunc (gradient_beautiful sz y)
           (map (\<lambda>(start, stop). spec_channel start stop sz y) ends_beautiful)"
  using gradient_channels [OF assms] .

theorem gradient_float_trunc_witness:
  "(0::int) < 20 \<and> (20::int) < 2 ^ 31 \<and> (0::int) \<le> 1 \<and> (1::int) < 20 \<and>
   list_all2 float_trunc (gradient_icons 20 1)
     (map (\<lambda>(start, stop). spec_channel start stop 20 1) ends_icons)"
  using gradient_float_trunc [of 20 1] by simp


section \<open>Top and bottom row of the gradient\<close>

text \<open>
  Claim C3 says that for every catalog size the top row averages to the start colour and
  the bottom row to the end colour, within one unit per band. The last row is row
  \<open>size - 1\<close>, so its colour is \<open>start/size + end*(size-1)/size\<close>: at size 20 the
  heart-and-plus style ends on (34, 142, 36) where the end colour is (34, 139, 34).
\<close>

theorem gradient_rows_counterexample:
  "\<not> rows_match 1 1 ends_icons (gradient_image_icons 20)"
proof -
  have len: "\<forall>y. length (gradient_icons 20 y) = 3"
    by simp
  obtain im where im: "gradient_image_icons 20 = Inr im"
    using gradient_image_px [where grad = "gradient_icons 20" and sz = 20, OF _ _ len]
    unfolding gradient_image_icons_def background_icons_def by auto
  note im' = im [unfolded gradient_image_icons_def background_icons_def]
  have "row_avg im 19 = [34, 142, 36]" "height im = 20"
    using gradient_row_avg [where grad = "gradient_icons 20" and sz = 20 and y = 19
        and r = 34 and g = 142 and b = 36, OF _ len _ _ _ _ _ _ _ _ _ im']
      gradient_icons_20_19 by simp_all
  then show ?thesis
    by (simp add: rows_match_def im ends_icons_def near3)
qed

text \<open>
  Claim C3, amended. For every catalog size the top row of the gradient is the start colour
  exactly. The bottom row is within one unit per band of the end colour for the catalog
  sizes from 40 up in the heart-and-plus style and from 29 up in the solid style; at the
  smaller catalog sizes it is within three units (heart-and-plus) and two units (solid).
\<close>

theorem gradient_rows:
  assumes "sz \<in> set catalog"
  shows "rows_match 0 3 ends_icons (gradient_image_icons sz) \<and>
         rows_match 0 2 ends_solid (gradient_image_solid sz) \<and>
         (40 \<le> sz \<longrightarrow> rows_match 0 1 ends_icons (gradient_image_icons sz)) \<and>
         (29 \<le> sz \<longrightarrow> rows_match 0 1 ends_solid (gradient_image_solid sz))"
proof -
  have b: "20 \<le> sz" "sz \<le> 1024"
    using assms by (auto simp: catalog_def)
  have hi: "sz < 2 ^ 31"
    using b(2) by simp
  have k: "(20::int) \<le> 20" "(20::int) \<le> 40" "(20::int) \<le> 29"
    by simp_all
  have t: "(3::int) = max 1 (60 div 20)" "(2::int) = max 1 (50 div 20)"
    "(1::int) = max 1 (60 div 40)" "(1::int) = max 1 (50 div 29)"
    by simp_all
  have "rows_match 0 (of_int 3) ends_icons (gradient_image_icons sz)"
    by (rule rows_icons [OF b(1) k(1) hi t(1)])
  moreover have "rows_match 0 (of_int 2) ends_solid (gradient_image_solid sz)"
    by (rule rows_solid [OF b(1) k(1) hi t(2)])
  moreover have "rows_match 0 (of_int 1) ends_icons (gradient_image_icons sz)" if "40 \<le> sz"
    by (rule rows_icons [OF that k(2) hi t(3)])
  moreover have "rows_match 0 (of_int 1) ends_solid (gradient_image_solid sz)" if "29 \<le> sz"
    by (rule rows_solid [OF that k(3) hi t(4)])
  ultimately show ?thesis
    by simp
qed

theorem gradient_rows_witness:
  "(40::int) \<in> set catalog \<and> (40::int) \<le> 40 \<and> (29::int) \<le> 40 \<and>
   rows_match 0 3 ends_icons (gradient_image_icons 40) \<and>
   rows_match 0 1 ends_icons (gradient_image_icons 40) \<and>
   rows_match 0 1 ends_solid (gradient_image_solid 40)"
proof -
  have h: "(40::int) \<in> set catalog"
    by (simp add: catalog_def)
  show ?thesis
    using h gradient_rows [OF h] by simp
qed


section \<open>The rounded corners\<close>

text \<open>
  Claim C5 says the four corner cells of the result hold the flat fill colour at every
  catalog size. The mask is the rounded rectangle \<open>[0, 0, size, size]\<close>; the library's boxes
  include both ends, so it reaches one cell past the canvas to the right and below, and its
  lower right arc is centred at \<open>(size - r, size - r)\<close>. At size 20 the radius is 3 (2 in the
  heart-and-gear style) and the cell (19, 19) lies inside the arc: with the geometric
  rasterizer it is pasted from the gradient, in both styles, and nothing drawn later
  reaches it.
\<close>

theorem corner_not_rounded_20:
  "pixel_at (render_app_icon geometric 20) (19, 19) = Inr (Rgb 34 142 36) \<and>
   pixel_at (render_beautiful_app_icon geometric 20) (19, 19) = Inr (Rgb 230 242 230)"
  using corner_icons_20 corner_beautiful_20 by simp


section \<open>Where the heart sits\<close>





section \<open>The size 120 scenario\<close>

text \<open>
  Claim C8. Rendering size 120 in the heart-and-gear style gives an image of 120 by 120
  cells in mode \<open>RGB\<close>; its centre cell (60, 60) holds the configured heart colour
  (52, 199, 89) and its four corner cells hold the flat fill (248, 249, 250). The cells are
  evaluated with the geometric rasterizer: the scan line through the centre crosses the
  boundary of the heart once to the right of the centre and the boundary of the highlight
  twice, so the heart covers the centre and the highlight does not; the gear, the plus
  badge and the dots lie elsewhere, and the corners lie outside the rounded mask.
\<close>

theorem scenario_120:
  "(\<exists>img. render_beautiful_app_icon geometric 120 = Inr img \<and> mode img = ModeRGB \<and>
      width img = 120 \<and> height img = 120) \<and>
   pixel_at (render_beautiful_app_icon geometric 120) (60, 60) = Inr (Rgb 52 199 89) \<and>
   heart_color = [52, 199, 89] \<and>
   pixel_at (render_beautiful_app_icon geometric 120) (0, 0) = Inr (Rgb 248 249 250) \<and>
   pixel_at (render_beautiful_app_icon geometric 120) (119, 0) = Inr (Rgb 248 249 250) \<and>
   pixel_at (render_beautiful_app_icon geometric 120) (0, 119) = Inr (Rgb 248 249 250) \<and>
   pixel_at (render_beautiful_app_icon geometric 120) (119, 119) = Inr (Rgb 248 249 250)"
proof -
  have "renders 120 (render_beautiful_app_icon geometric 120)"
    by (rule renders_beautiful) simp_all
  then have "\<exists>img. render_beautiful_app_icon geometric 120 = Inr img \<and> mode img = ModeRGB \<and>
      width img = 120 \<and> height img = 120"
    by (cases "render_beautiful_app_icon geometric 120") (auto simp: wf_rgb_def)
  then show ?thesis
    using center_beautiful_120 corners_beautiful_120 by (simp add: heart_color_def)
qed

end
